theory Spec2Isabelle
  imports Complex_Main "HOL-Library.AList" "HOL-Library.Char_ord" "HOL-Library.List_Lexorder"
begin

section \<open>Values and exceptions of the script\<close>

text \<open>
  The script \<^verbatim>\<open>scripts/fetch_github_contributions.py\<close> works on the values that
  \<^verbatim>\<open>json.load\<close> and \<^verbatim>\<open>response.json()\<close> produce. A dict is an association list in
  insertion order; a JSON number is kept by its value (Python compares and hashes
  \<^verbatim>\<open>1\<close>, \<^verbatim>\<open>1.0\<close> and \<^verbatim>\<open>True\<close> alike; the non-JSON literals NaN and Infinity are left out);
  a string is the list of its bytes in UTF-8.
\<close>

datatype json =
    JNull
  | JBool bool
  | JNum rat
  | JStr string
  | JArr "json list"
  | JObj "(string \<times> json) list"

text \<open>The exceptions that the script can raise and never catches.\<close>

datatype py_error =
    AttributeError
  | TypeError
  | KeyError
  | JSONDecodeError
  | ConnectionError
  | OSError
  | RecursionError

definition bindE :: "py_error + 'a \<Rightarrow> ('a \<Rightarrow> py_error + 'b) \<Rightarrow> py_error + 'b" where
  "bindE m f = (case m of Inl e \<Rightarrow> Inl e | Inr x \<Rightarrow> f x)"

text \<open>Truth value of an object, as \<^verbatim>\<open>not x\<close> and \<^verbatim>\<open>x or y\<close> test it.\<close>

fun truthy :: "json \<Rightarrow> bool" where
  "truthy JNull = False"
| "truthy (JBool b) = b"
| "truthy (JNum x) = (x \<noteq> 0)"
| "truthy (JStr s) = (s \<noteq> [])"
| "truthy (JArr xs) = (xs \<noteq> [])"
| "truthy (JObj kvs) = (kvs \<noteq> [])"

text \<open>\<^verbatim>\<open>x.get(k, default)\<close>: only a dict has the method.\<close>

fun py_get :: "json \<Rightarrow> string \<Rightarrow> json \<Rightarrow> py_error + json" where
  "py_get (JObj kvs) k dflt = Inr (case map_of kvs k of Some v \<Rightarrow> v | None \<Rightarrow> dflt)"
| "py_get _ k dflt = Inl AttributeError"

text \<open>\<^verbatim>\<open>x[k]\<close> with a string \<^verbatim>\<open>k\<close>: a missing key of a dict is a KeyError, any other
  object refuses a string index with a TypeError.\<close>

fun py_getitem :: "json \<Rightarrow> string \<Rightarrow> py_error + json" where
  "py_getitem (JObj kvs) k = (case map_of kvs k of Some v \<Rightarrow> Inr v | None \<Rightarrow> Inl KeyError)"
| "py_getitem _ k = Inl TypeError"

text \<open>\<^verbatim>\<open>x.keys()\<close>.\<close>

fun py_keys :: "json \<Rightarrow> py_error + string list" where
  "py_keys (JObj kvs) = Inr (map fst kvs)"
| "py_keys _ = Inl AttributeError"

text \<open>\<^verbatim>\<open>for v in x\<close>: a list gives its elements, a string its characters, a dict its
  keys; nothing else is iterable.\<close>

fun py_iter :: "json \<Rightarrow> py_error + json list" where
  "py_iter (JArr xs) = Inr xs"
| "py_iter (JStr s) = Inr (map (\<lambda>c. JStr [c]) s)"
| "py_iter (JObj kvs) = Inr (map (\<lambda>kv. JStr (fst kv)) kvs)"
| "py_iter _ = Inl TypeError"

text \<open>Using an object as a dict key: lists and dicts are unhashable; a bool is the
  same key as the number it equals.\<close>

fun hash_key :: "json \<Rightarrow> py_error + json" where
  "hash_key (JArr xs) = Inl TypeError"
| "hash_key (JObj kvs) = Inl TypeError"
| "hash_key (JBool b) = Inr (JNum (if b then 1 else 0))"
| "hash_key v = Inr v"

text \<open>
  \<^verbatim>\<open>s.lower()\<close>. The ASCII capitals are lowered, and so is the Kelvin sign (the bytes
  E2 84 AA), the one character outside ASCII whose lower case is an ASCII letter; every
  other character is kept as it is, where Python may change it into another character
  outside ASCII. So the lower-case forms of two strings, one of them ASCII, are equal here
  exactly when they are in Python; the user name of the script is ASCII.
\<close>

definition char_lower :: "char \<Rightarrow> char" where
  "char_lower c = (let n = (of_char c :: nat) in if 65 \<le> n \<and> n \<le> 90 then char_of (n + 32) else c)"

fun lower :: "string \<Rightarrow> string" where
  "lower (a # b # c # s) =
     (if a = CHR 0xE2 \<and> b = CHR 0x84 \<and> c = CHR 0xAA then CHR ''k'' # lower s
      else char_lower a # lower (b # c # s))"
| "lower (a # s) = char_lower a # lower s"
| "lower [] = []"

text \<open>\<^verbatim>\<open>k in x\<close> with a string \<^verbatim>\<open>k\<close>: a key of a dict, an element of a list, a substring
  of a string; any other object raises.\<close>

definition is_substring :: "string \<Rightarrow> string \<Rightarrow> bool" where
  "is_substring k s = list_ex (\<lambda>i. take (length k) (drop i s) = k) [0..<Suc (length s)]"

fun py_contains :: "json \<Rightarrow> string \<Rightarrow> py_error + bool" where
  "py_contains (JObj kvs) k = Inr (k \<in> set (map fst kvs))"
| "py_contains (JArr xs) k = Inr (JStr k \<in> set xs)"
| "py_contains (JStr s) k = Inr (is_substring k s)"
| "py_contains _ k = Inl TypeError"

section \<open>The fetcher\<close>

text \<open>
  What \<^verbatim>\<open>requests.post\<close> gives back: the call raises, or there is a response with a status
  code and a body, for which \<^verbatim>\<open>response.json()\<close> returns a value or raises (\<^verbatim>\<open>None\<close>).
  A request is the token, the user name and the year that it carries. The platform is a
  parameter of the model: it answers a request, and its answer may depend on the requests
  that were sent before. Sending a request is an effect of the script: \<^verbatim>\<open>sent\<close> is the log of
  the requests sent so far, and \<^verbatim>\<open>requests.post\<close> adds the request to it.
\<close>

datatype http_result =
    ConnectionFailed
  | Response int "json option"

type_synonym request = "string \<times> string \<times> int"

type_synonym platform = "request list \<Rightarrow> string \<Rightarrow> string \<Rightarrow> int \<Rightarrow> http_result"

definition requests_post :: "platform \<Rightarrow> request list \<Rightarrow> string \<Rightarrow> string \<Rightarrow> int \<Rightarrow> http_result \<times> request list" where
  "requests_post post sent token username year =
     (post sent token username year, sent @ [(token, username, year)])"

text \<open>The two local variables of the loop: the dict \<^verbatim>\<open>orgs\<close>, in insertion order, and
  the set \<^verbatim>\<open>orgs_with_public\<close>.\<close>

record fetch_state =
  orgs :: "(string \<times> json) list"
  orgs_with_public :: "string set"

definition contribution_types :: "string list" where
  "contribution_types =
     [''commitContributionsByRepository'',
      ''pullRequestContributionsByRepository'',
      ''issueContributionsByRepository'']"

text \<open>The body of the inner loop (lines 133 to 152), on one repository entry.\<close>

definition process_entry :: "string \<Rightarrow> fetch_state \<Rightarrow> json \<Rightarrow> py_error + fetch_state" where
  "process_entry username st repo_contrib =
     bindE (py_get repo_contrib ''repository'' (JObj [])) (\<lambda>repo.
     bindE (py_get repo ''owner'' (JObj [])) (\<lambda>owner.
     bindE (py_get owner ''login'' JNull) (\<lambda>login.
     if \<not> truthy login then Inr st else
     bindE (py_get owner ''avatarUrl'' JNull) (\<lambda>avatar.
     if \<not> truthy avatar then Inr st else
     (case login of
        JStr l \<Rightarrow>
          if lower l = lower username then Inr st else
          bindE (py_get repo ''isPrivate'' JNull) (\<lambda>is_private.
          let st1 = (if \<not> truthy is_private
                     then st\<lparr>orgs_with_public := insert l (orgs_with_public st)\<rparr> else st) in
          if l \<in> set (map fst (orgs st1)) then Inr st1 else
          bindE (py_get owner ''name'' JNull) (\<lambda>name.
          bindE (py_get owner ''avatarUrl'' JNull) (\<lambda>avatar_url.
          bindE (py_get owner ''url'' JNull) (\<lambda>url.
          Inr (st1\<lparr>orgs := AList.update l
                 (JObj [(''login'', JStr l),
                        (''name'', if truthy name then name else JStr l),
                        (''avatarUrl'', avatar_url),
                        (''url'', url)])
                 (orgs st1)\<rparr>)))))
      | _ \<Rightarrow> Inl AttributeError)))))"

fun process_repos :: "string \<Rightarrow> fetch_state \<Rightarrow> json list \<Rightarrow> py_error + fetch_state" where
  "process_repos username st [] = Inr st"
| "process_repos username st (repo_contrib # rest) =
     bindE (process_entry username st repo_contrib) (\<lambda>st'.
     process_repos username st' rest)"

fun process_types :: "string \<Rightarrow> json \<Rightarrow> fetch_state \<Rightarrow> string list \<Rightarrow> py_error + fetch_state" where
  "process_types username collection st [] = Inr st"
| "process_types username collection st (contrib_type # rest) =
     bindE (py_get collection contrib_type (JArr [])) (\<lambda>repos.
     bindE (py_iter repos) (\<lambda>entries.
     bindE (process_repos username st entries) (\<lambda>st'.
     process_types username collection st' rest)))"

text \<open>The test of the final comprehension, \<^verbatim>\<open>org["login"] in orgs_with_public\<close>. The
  records of \<^verbatim>\<open>orgs\<close> are built by the loop with a string under \<^verbatim>\<open>login\<close>, so the
  subscript does not raise there.\<close>

definition has_public :: "string set \<Rightarrow> json \<Rightarrow> bool" where
  "has_public pub org = (case py_getitem org ''login'' of Inr (JStr l) \<Rightarrow> l \<in> pub | _ \<Rightarrow> False)"

text \<open>The function returns what it computed, or raises, and leaves the log of the requests
  that it sent.\<close>

definition get_contributions_for_year :: "platform \<Rightarrow> request list \<Rightarrow> string \<Rightarrow> string \<Rightarrow> int \<Rightarrow> (py_error + json list) \<times> request list" where
  "get_contributions_for_year post sent token username year =
     (case requests_post post sent token username year of
        (response, sent') \<Rightarrow>
          ((case response of
              ConnectionFailed \<Rightarrow> Inl ConnectionError
            | Response status_code body \<Rightarrow>
                if status_code \<noteq> 200 then Inr [] else
                (case body of
                   None \<Rightarrow> Inl JSONDecodeError
                 | Some data \<Rightarrow>
                     bindE (py_contains data ''errors'') (\<lambda>has_errors.
                     if has_errors then Inr [] else
                     bindE (py_get data ''data'' (JObj [])) (\<lambda>d.
                     bindE (py_get d ''user'' (JObj [])) (\<lambda>u.
                     bindE (py_get u ''contributionsCollection'' (JObj [])) (\<lambda>collection.
                     bindE (process_types username collection
                              \<lparr>orgs = [], orgs_with_public = {}\<rparr> contribution_types) (\<lambda>st.
                     Inr [org \<leftarrow> map snd (orgs st). has_public (orgs_with_public st) org]))))))),
           sent'))"

section \<open>The merger\<close>

text \<open>
  \<^verbatim>\<open>{org["login"]: org for org in xs}\<close>: the key is read, hashed, and the record stored
  under it; a key seen before keeps its place and takes the new record.
\<close>

fun index_by_login :: "json list \<Rightarrow> (json \<times> json) list \<Rightarrow> py_error + (json \<times> json) list" where
  "index_by_login [] d = Inr d"
| "index_by_login (org # rest) d =
     bindE (py_getitem org ''login'') (\<lambda>k.
     bindE (hash_key k) (\<lambda>k'.
     index_by_login rest (AList.update k' org d)))"

text \<open>\<^verbatim>\<open>{**a, **b}\<close>: the entries of \<^verbatim>\<open>b\<close> are stored into a copy of \<^verbatim>\<open>a\<close>, in order.\<close>

definition dict_union :: "('k \<times> 'v) list \<Rightarrow> ('k \<times> 'v) list \<Rightarrow> ('k \<times> 'v) list" where
  "dict_union a b = foldl (\<lambda>d kv. AList.update (fst kv) (snd kv) d) a b"

text \<open>The body of the loop over the years (lines 173 to 178): the value stored under
  the year.\<close>

definition merge_year :: "json \<Rightarrow> json \<Rightarrow> string \<Rightarrow> py_error + json" where
  "merge_year auto manual year =
     bindE (py_get auto year (JArr [])) (\<lambda>av.
     bindE (py_iter av) (\<lambda>al.
     bindE (index_by_login al []) (\<lambda>auto_orgs.
     bindE (py_get manual year (JArr [])) (\<lambda>mv.
     bindE (py_iter mv) (\<lambda>ml.
     bindE (index_by_login ml []) (\<lambda>manual_orgs.
     Inr (JArr (map snd (dict_union auto_orgs manual_orgs)))))))))"

fun merge_years :: "json \<Rightarrow> json \<Rightarrow> string list \<Rightarrow> (string \<times> json) list \<Rightarrow> py_error + (string \<times> json) list" where
  "merge_years auto manual [] merged = Inr merged"
| "merge_years auto manual (year # years) merged =
     bindE (merge_year auto manual year) (\<lambda>v.
     merge_years auto manual years (AList.update year v merged))"

text \<open>
  \<^verbatim>\<open>merge_contributions\<close>. Python iterates the set \<^verbatim>\<open>all_years\<close> in an order of its own;
  the model takes the years without repetition in the order of the two key lists.
  Datasets are compared as dicts, by their value at every key, so that this choice is not
  observed.
\<close>

definition merge_contributions :: "json \<Rightarrow> json \<Rightarrow> py_error + json" where
  "merge_contributions auto manual =
     bindE (py_keys auto) (\<lambda>ak.
     bindE (py_keys manual) (\<lambda>mk.
     bindE (merge_years auto manual (remdups (ak @ mk)) []) (\<lambda>merged.
     Inr (JObj merged))))"

section \<open>The orchestrator\<close>

definition GITHUB_USERNAME :: string where
  "GITHUB_USERNAME = ''haythemsellami''"

text \<open>\<^verbatim>\<open>s.split(",")\<close>.\<close>

fun split_on :: "char \<Rightarrow> string \<Rightarrow> string list" where
  "split_on c [] = [[]]"
| "split_on c (x # xs) =
     (if x = c then [] # split_on c xs
      else (case split_on c xs of w # ws \<Rightarrow> (x # w) # ws | [] \<Rightarrow> [[x]]))"

text \<open>
  \<^verbatim>\<open>s.strip()\<close> removes the white space at both ends. The white space characters of Python,
  in UTF-8: U+0009 to U+000D, U+001C to U+0020, U+0085, U+00A0, U+1680, U+2000 to U+200A,
  U+2028, U+2029, U+202F, U+205F and U+3000.
\<close>

definition white_space :: "string list" where
  "white_space =
     [[CHR 0x09], [CHR 0x0A], [CHR 0x0B], [CHR 0x0C], [CHR 0x0D],
      [CHR 0x1C], [CHR 0x1D], [CHR 0x1E], [CHR 0x1F], [CHR 0x20],
      [CHR 0xC2, CHR 0x85], [CHR 0xC2, CHR 0xA0],
      [CHR 0xE1, CHR 0x9A, CHR 0x80],
      [CHR 0xE2, CHR 0x80, CHR 0x80], [CHR 0xE2, CHR 0x80, CHR 0x81],
      [CHR 0xE2, CHR 0x80, CHR 0x82], [CHR 0xE2, CHR 0x80, CHR 0x83],
      [CHR 0xE2, CHR 0x80, CHR 0x84], [CHR 0xE2, CHR 0x80, CHR 0x85],
      [CHR 0xE2, CHR 0x80, CHR 0x86], [CHR 0xE2, CHR 0x80, CHR 0x87],
      [CHR 0xE2, CHR 0x80, CHR 0x88], [CHR 0xE2, CHR 0x80, CHR 0x89],
      [CHR 0xE2, CHR 0x80, CHR 0x8A],
      [CHR 0xE2, CHR 0x80, CHR 0xA8], [CHR 0xE2, CHR 0x80, CHR 0xA9],
      [CHR 0xE2, CHR 0x80, CHR 0xAF], [CHR 0xE2, CHR 0x81, CHR 0x9F],
      [CHR 0xE3, CHR 0x80, CHR 0x80]]"

text \<open>Removing, as long as there is one, a leading occurrence of one of the given
  words.\<close>

function drop_leading :: "string list \<Rightarrow> string \<Rightarrow> string" where
  "drop_leading ws s =
     (case find (\<lambda>w. w \<noteq> [] \<and> take (length w) s = w) ws of
        None \<Rightarrow> s
      | Some w \<Rightarrow> drop_leading ws (drop (length w) s))"
  by pat_completeness auto
termination
proof (relation "measure (\<lambda>(ws, s). length s)")
  show "wf (measure (\<lambda>(ws, s). length s))" by simp
next
  fix ws :: "string list" and s w :: string
  assume "find (\<lambda>w. w \<noteq> [] \<and> take (length w) s = w) ws = Some w"
  then have "w \<noteq> []" and "take (length w) s = w" by (auto simp: find_Some_iff)
  then have "s \<noteq> []" and "0 < length w" by auto
  then show "((ws, drop (length w) s), (ws, s)) \<in> measure (\<lambda>(ws, s). length s)" by simp
qed

definition strip :: "string \<Rightarrow> string" where
  "strip s = rev (drop_leading (map rev white_space) (rev (drop_leading white_space s)))"

definition parse_tokens :: "string \<Rightarrow> string list" where
  "parse_tokens token_str = [strip t. t \<leftarrow> split_on CHR '','' token_str, strip t \<noteq> []]"

text \<open>\<^verbatim>\<open>str(year)\<close>.\<close>

fun str_nat :: "nat \<Rightarrow> string" where
  "str_nat n = (if n < 10 then [char_of (48 + n)] else str_nat (n div 10) @ [char_of (48 + n mod 10)])"

definition str_int :: "int \<Rightarrow> string" where
  "str_int i = (if i < 0 then CHR ''-'' # str_nat (nat (- i)) else str_nat (nat i))"

text \<open>\<^verbatim>\<open>range(current_year, 2015, -1)\<close>.\<close>

definition years_to_fetch :: "int \<Rightarrow> int list" where
  "years_to_fetch current_year = rev [2016..current_year]"

text \<open>Lines 204 to 206: the organizations of one token go into \<^verbatim>\<open>year_orgs\<close>, the first
  record of a login staying.\<close>

fun add_orgs :: "(json \<times> json) list \<Rightarrow> json list \<Rightarrow> py_error + (json \<times> json) list" where
  "add_orgs year_orgs [] = Inr year_orgs"
| "add_orgs year_orgs (org # rest) =
     bindE (py_getitem org ''login'') (\<lambda>k.
     bindE (hash_key k) (\<lambda>k'.
     add_orgs (if k' \<in> set (map fst year_orgs) then year_orgs else AList.update k' org year_orgs) rest))"

text \<open>The loop over the tokens (lines 202 to 206): one call of the fetcher for each
  token, the log of the requests going from call to call.\<close>

fun fetch_tokens :: "platform \<Rightarrow> int \<Rightarrow> string list \<Rightarrow> (json \<times> json) list \<Rightarrow> request list \<Rightarrow> py_error + ((json \<times> json) list \<times> request list)" where
  "fetch_tokens post year [] year_orgs sent = Inr (year_orgs, sent)"
| "fetch_tokens post year (token # rest) year_orgs sent =
     bindE (fst (get_contributions_for_year post sent token GITHUB_USERNAME year)) (\<lambda>found.
     bindE (add_orgs year_orgs found) (\<lambda>year_orgs'.
     fetch_tokens post year rest year_orgs'
       (snd (get_contributions_for_year post sent token GITHUB_USERNAME year))))"

text \<open>
  \<^verbatim>\<open>print\<close>. Whether the call returns or raises is for standard output to decide:
  \<^verbatim>\<open>out n\<close> tells whether the call returns when \<^verbatim>\<open>n\<close> calls were made before it. The
  result is the number of calls made.
\<close>

definition py_print :: "(nat \<Rightarrow> bool) \<Rightarrow> nat \<Rightarrow> py_error + nat" where
  "py_print out n = (if out n then Inr (Suc n) else Inl OSError)"

text \<open>The loop over the years (lines 197 to 213): the year is printed, the tokens are
  tried, the count is printed and the list stored.\<close>

fun fetch_years :: "(nat \<Rightarrow> bool) \<Rightarrow> platform \<Rightarrow> string list \<Rightarrow> int list \<Rightarrow> (string \<times> json) list \<Rightarrow> request list \<Rightarrow> nat \<Rightarrow> py_error + ((string \<times> json) list \<times> request list \<times> nat)" where
  "fetch_years out post tokens [] all_contributions sent n = Inr (all_contributions, sent, n)"
| "fetch_years out post tokens (year # rest) all_contributions sent n =
     bindE (py_print out n) (\<lambda>n1.
     bindE (fetch_tokens post year tokens [] sent) (\<lambda>found.
     bindE (py_print out n1) (\<lambda>n2.
     fetch_years out post tokens rest
       (AList.update (str_int year)
          (if fst found \<noteq> [] then JArr (map snd (fst found)) else JArr []) all_contributions)
       (snd found) n2)))"

text \<open>
  The manual file, by what \<^verbatim>\<open>load_manual_contributions\<close> meets: no file; a file that
  \<^verbatim>\<open>open\<close> refuses; a file on which \<^verbatim>\<open>json.load\<close> raises a value error (its text is not
  JSON, an empty file for one, or is not UTF-8, or holds a number too long to convert); a
  file on which \<^verbatim>\<open>json.load\<close> raises because it is nested deeper than the parser goes; a
  file for which \<^verbatim>\<open>json.load\<close> returns a value.
\<close>

datatype manual_file = NoFile | Unreadable | NotJson | TooDeep | Content json

fun load_manual_contributions :: "manual_file \<Rightarrow> py_error + json" where
  "load_manual_contributions NoFile = Inr (JObj [])"
| "load_manual_contributions Unreadable = Inl OSError"
| "load_manual_contributions NotJson = Inl JSONDecodeError"
| "load_manual_contributions TooDeep = Inl RecursionError"
| "load_manual_contributions (Content v) = Inr v"

text \<open>\<^verbatim>\<open>dict(sorted(d.items(), key=lambda x: x[0], reverse=True))\<close>: a stable sort on the
  keys, greatest first.\<close>

fun py_items :: "json \<Rightarrow> py_error + (string \<times> json) list" where
  "py_items (JObj kvs) = Inr kvs"
| "py_items _ = Inl AttributeError"

definition sort_years :: "(string \<times> json) list \<Rightarrow> (string \<times> json) list" where
  "sort_years kvs = rev (sort_key fst (rev kvs))"

text \<open>
  What a run depends on: whether \<^verbatim>\<open>import requests\<close> succeeds; the environment variable;
  the clock; the platform; the manual file; whether lines 225 to 227 go through (the
  directory is made, the file opened and the mapping dumped); and standard output:
  whether each call of \<^verbatim>\<open>print\<close> returns, and whether the interpreter can flush the
  standard streams when the process ends.
  What it leaves: the exit status of the process, and the mapping dumped to the output
  file if the run got that far.
\<close>

record env =
  requests_installed :: bool
  GITHUB_TOKEN :: "string option"
  current_year :: int
  platform :: platform
  manual :: manual_file
  output_writable :: bool
  print_ok :: "nat \<Rightarrow> bool"
  flush_ok :: bool

record outcome =
  exit_status :: int
  written :: "(string \<times> json) list option"

text \<open>Lines 184 and 185: the tokens of the run; an unset variable reads as the empty
  string.\<close>

definition configured_tokens :: "env \<Rightarrow> string list" where
  "configured_tokens e = parse_tokens (case GITHUB_TOKEN e of None \<Rightarrow> [] | Some s \<Rightarrow> s)"

text \<open>Lines 184 to 222 of \<^verbatim>\<open>main\<close>: the sorted mapping, and the number of calls of
  \<^verbatim>\<open>print\<close> so far.\<close>

definition collect :: "env \<Rightarrow> py_error + ((string \<times> json) list \<times> nat)" where
  "collect e =
     (let tokens = configured_tokens e in
      bindE (if tokens = [] then py_print (print_ok e) 0 else Inr 0) (\<lambda>n1.
      bindE (py_print (print_ok e) n1) (\<lambda>n2.
      bindE (fetch_years (print_ok e) (platform e) tokens (years_to_fetch (current_year e)) [] [] n2)
        (\<lambda>fetched.
      bindE (load_manual_contributions (manual e)) (\<lambda>manual_data.
      bindE (if truthy manual_data
             then bindE (py_print (print_ok e) (snd (snd fetched))) (\<lambda>n4.
                  bindE (merge_contributions (JObj (fst fetched)) manual_data) (\<lambda>merged.
                  Inr (merged, n4)))
             else Inr (JObj (fst fetched), snd (snd fetched))) (\<lambda>merged.
      bindE (py_items (fst merged)) (\<lambda>items.
      Inr (sort_years items, snd merged))))))))"

text \<open>Lines 225 to 229: the mapping is written, then the last line is printed. The
  result is what was written, and how \<^verbatim>\<open>main\<close> ended.\<close>

definition run :: "env \<Rightarrow> (string \<times> json) list option \<times> (py_error + unit)" where
  "run e =
     (case collect e of
        Inl err \<Rightarrow> (None, Inl err)
      | Inr collected \<Rightarrow>
          if \<not> output_writable e then (None, Inl OSError)
          else (Some (fst collected),
                bindE (py_print (print_ok e) (snd collected)) (\<lambda>n. Inr ())))"

text \<open>
  The script as a process. When the import fails, the message is printed and
  \<^verbatim>\<open>sys.exit(1)\<close> called; should that \<^verbatim>\<open>print\<close> raise, or the import raise another
  exception, the status is 1 as well. Otherwise
  the status is 1 when an exception escapes \<^verbatim>\<open>main\<close> and 0 at the end of \<^verbatim>\<open>main\<close>. In every
  case the interpreter flushes the standard streams at the end, and exits with 120 when it
  cannot.
\<close>

definition main :: "env \<Rightarrow> outcome" where
  "main e =
     (let ended = (if \<not> requests_installed e then (None, 1)
                   else (case run e of
                           (w, Inl err) \<Rightarrow> (w, 1)
                         | (w, Inr u) \<Rightarrow> (w, 0)))
      in \<lparr>exit_status = (if flush_ok e then snd ended else 120), written = fst ended\<rparr>)"

section \<open>Notions used to state the properties\<close>

text \<open>The dict key under which the merger files a record: its \<^verbatim>\<open>login\<close>, hashed.\<close>

definition login_key :: "json \<Rightarrow> py_error + json" where
  "login_key org = bindE (py_getitem org ''login'') hash_key"

text \<open>A dict of records in which every record sits under its own key.\<close>

definition keyed :: "(json \<times> json) list \<Rightarrow> bool" where
  "keyed d = (\<forall>kv \<in> set d. login_key (snd kv) = Inr (fst kv))"

text \<open>The call returns a value: no exception leaves it.\<close>

definition returns :: "py_error + 'a \<Rightarrow> bool" where
  "returns m = (case m of Inl e \<Rightarrow> False | Inr x \<Rightarrow> True)"

text \<open>A contribution dataset: a dict from year labels to lists of organization records,
  each record a dict with a \<^verbatim>\<open>login\<close> that can be a dict key.\<close>

fun is_org :: "json \<Rightarrow> bool" where
  "is_org (JObj fs) =
     (case map_of fs ''login'' of
        None \<Rightarrow> False | Some (JArr xs) \<Rightarrow> False | Some (JObj kvs) \<Rightarrow> False | Some v \<Rightarrow> True)"
| "is_org _ = False"

fun is_dataset :: "json \<Rightarrow> bool" where
  "is_dataset (JObj kvs) =
     list_all (\<lambda>kv. case snd kv of JArr rs \<Rightarrow> list_all is_org rs | _ \<Rightarrow> False) kvs"
| "is_dataset _ = False"

text \<open>The identity key in the words of the specification: the lowercase form of the
  identifier.\<close>

fun lower_key :: "json \<Rightarrow> json" where
  "lower_key (JStr s) = JStr (lower s)"
| "lower_key v = v"

definition lowercase_login :: "json \<Rightarrow> py_error + json" where
  "lowercase_login org = bindE (login_key org) (\<lambda>k. Inr (lower_key k))"

text \<open>Records for the examples.\<close>

definition acme_auto :: json where
  "acme_auto = JObj [(''login'', JStr ''acme''), (''name'', JStr ''acme''),
     (''avatarUrl'', JStr ''http://x/a.png''), (''url'', JStr ''http://acme'')]"

definition acme_manual :: json where
  "acme_manual = JObj [(''login'', JStr ''acme''), (''name'', JStr ''Acme Corp''),
     (''avatarUrl'', JStr ''http://x/b.png''), (''url'', JStr ''http://acme'')]"

definition Acme_manual :: json where
  "Acme_manual = JObj [(''login'', JStr ''Acme''), (''name'', JStr ''Acme Corp''),
     (''avatarUrl'', JStr ''http://x/b.png''), (''url'', JStr ''http://acme'')]"

text \<open>The fields of a repository entry, read without raising: a missing key and a
  value that is not a dict both give \<^verbatim>\<open>None\<close>.\<close>

definition field :: "json \<Rightarrow> string \<Rightarrow> json" where
  "field x k = (case x of JObj kvs \<Rightarrow> (case map_of kvs k of Some v \<Rightarrow> v | None \<Rightarrow> JNull) | _ \<Rightarrow> JNull)"

definition entry_repo :: "json \<Rightarrow> json" where
  "entry_repo e = field e ''repository''"

definition entry_owner :: "json \<Rightarrow> json" where
  "entry_owner e = field (entry_repo e) ''owner''"

definition entry_private :: "json \<Rightarrow> bool" where
  "entry_private e = truthy (field (entry_repo e) ''isPrivate'')"

text \<open>The guards of lines 137 to 140. An entry is accepted, with the login of its
  owner, when the login is a non-empty string, the avatar URL is not empty, and the login is
  not the user name up to case.\<close>

definition accepted_login :: "string \<Rightarrow> json \<Rightarrow> string option" where
  "accepted_login username e =
     (case field (entry_owner e) ''login'' of
        JStr l \<Rightarrow>
          if l \<noteq> [] \<and> truthy (field (entry_owner e) ''avatarUrl'') \<and> lower l \<noteq> lower username
          then Some l else None
      | _ \<Rightarrow> None)"

text \<open>The record of lines 147 to 152, built from an owner.\<close>

definition org_record :: "json \<Rightarrow> string \<Rightarrow> json" where
  "org_record owner l =
     JObj [(''login'', JStr l),
           (''name'', if truthy (field owner ''name'') then field owner ''name'' else JStr l),
           (''avatarUrl'', field owner ''avatarUrl''),
           (''url'', field owner ''url'')]"

text \<open>One turn of the inner loop as a state update, for an entry on which it does not
  raise.\<close>

definition step :: "string \<Rightarrow> fetch_state \<Rightarrow> json \<Rightarrow> fetch_state" where
  "step username st e =
     (case accepted_login username e of
        None \<Rightarrow> st
      | Some l \<Rightarrow>
          \<lparr>orgs = (if l \<in> set (map fst (orgs st)) then orgs st
                   else orgs st @ [(l, org_record (entry_owner e) l)]),
           orgs_with_public = (if entry_private e then orgs_with_public st
                               else insert l (orgs_with_public st))\<rparr>)"

text \<open>The repository entries that a response lists under one contribution category.\<close>

definition entries_of :: "json \<Rightarrow> string \<Rightarrow> json list" where
  "entries_of collection contrib_type =
     (case py_iter (field collection contrib_type) of Inr es \<Rightarrow> es | Inl err \<Rightarrow> [])"

text \<open>The repository entries of a response in the order of the specification: those of
  the commits first, then those of the pull requests, then those of the issues.\<close>

definition response_entries :: "json \<Rightarrow> json list" where
  "response_entries data =
     (let collection = field (field (field data ''data'') ''user'') ''contributionsCollection'' in
        entries_of collection ''commitContributionsByRepository''
        @ entries_of collection ''pullRequestContributionsByRepository''
        @ entries_of collection ''issueContributionsByRepository'')"

text \<open>The entries that the fetcher scans in what the platform answered: those of a
  response with status 200 and no \<^verbatim>\<open>errors\<close>, none otherwise.\<close>

definition scanned_entries :: "http_result \<Rightarrow> json list" where
  "scanned_entries r =
     (case r of
        Response status_code (Some data) \<Rightarrow>
          if status_code = 200 \<and> py_contains data ''errors'' = Inr False
          then response_entries data else []
      | _ \<Rightarrow> [])"

text \<open>An entry of the owner with a given login, and an entry whose owner fields are
  valid: the login and the avatar URL are not empty.\<close>

definition owned_by :: "string \<Rightarrow> json \<Rightarrow> bool" where
  "owned_by l e = (field (entry_owner e) ''login'' = JStr l)"

definition valid_owner_fields :: "json \<Rightarrow> bool" where
  "valid_owner_fields e =
     (truthy (field (entry_owner e) ''login'') \<and> truthy (field (entry_owner e) ''avatarUrl''))"

text \<open>The first accepted entry of a login, and whether some accepted entry of the login
  is not private.\<close>

definition first_accepted :: "string \<Rightarrow> json list \<Rightarrow> string \<Rightarrow> json option" where
  "first_accepted username es l = find (\<lambda>e. accepted_login username e = Some l) es"

definition has_public_entry :: "string \<Rightarrow> json list \<Rightarrow> string \<Rightarrow> bool" where
  "has_public_entry username es l =
     list_ex (\<lambda>e. accepted_login username e = Some l \<and> \<not> entry_private e) es"

text \<open>The state of the loop after a list of entries, from the two empty variables.\<close>

definition scan :: "string \<Rightarrow> json list \<Rightarrow> fetch_state" where
  "scan username es = foldl (step username) \<lparr>orgs = [], orgs_with_public = {}\<rparr> es"

text \<open>The records that the manual file lists under a year label: none when the file
  is absent or has no such label.\<close>

definition manual_entries :: "manual_file \<Rightarrow> string \<Rightarrow> json list" where
  "manual_entries mf label =
     (case load_manual_contributions mf of
        Inr v \<Rightarrow> (case bindE (py_get v label (JArr [])) py_iter of Inr es \<Rightarrow> es | Inl err \<Rightarrow> [])
      | Inl err \<Rightarrow> [])"

text \<open>The requests of a run in the words of the specification: for each year, from the
  current one down, one request for each token.\<close>

definition planned_requests :: "env \<Rightarrow> request list" where
  "planned_requests e =
     concat (map (\<lambda>year. map (\<lambda>token. (token, GITHUB_USERNAME, year)) (configured_tokens e))
               (years_to_fetch (current_year e)))"

text \<open>Each request of a list, sent after the ones before it, is answered in a way that
  the fetcher gets through: the call returns a list, empty or not.\<close>

fun fetches_return :: "platform \<Rightarrow> request list \<Rightarrow> request list \<Rightarrow> bool" where
  "fetches_return post sent [] = True"
| "fetches_return post sent (r # rest) =
     (returns (fst (get_contributions_for_year post sent (fst r) (fst (snd r)) (snd (snd r))))
      \<and> fetches_return post (sent @ [r]) rest)"

definition all_fetches_return :: "env \<Rightarrow> bool" where
  "all_fetches_return e = fetches_return (platform e) [] (planned_requests e)"

text \<open>Standard output takes every line and can be flushed at the end.\<close>

definition stdout_works :: "env \<Rightarrow> bool" where
  "stdout_works e = ((\<forall>n. print_ok e n) \<and> flush_ok e)"

text \<open>There is no manual file, or \<^verbatim>\<open>json.load\<close> returns a value for it that is false
  (such as \<^verbatim>\<open>{}\<close>) or a dataset.\<close>

definition manual_usable :: "manual_file \<Rightarrow> bool" where
  "manual_usable mf =
     (case mf of NoFile \<Rightarrow> True | Content v \<Rightarrow> \<not> truthy v \<or> is_dataset v | _ \<Rightarrow> False)"

text \<open>Responses for the examples.\<close>

definition entry :: "string \<Rightarrow> json \<Rightarrow> bool \<Rightarrow> json" where
  "entry l name private =
     JObj [(''repository'',
            JObj [(''owner'', JObj [(''login'', JStr l), (''name'', name),
                                    (''avatarUrl'', JStr ''http://x/a.png''), (''url'', JStr ''http://x'')]),
                  (''isPrivate'', JBool private)]),
           (''contributions'', JObj [(''totalCount'', JNum 3)])]"

definition example_response :: json where
  "example_response =
     JObj [(''data'', JObj [(''user'', JObj [(''contributionsCollection'', JObj [
       (''commitContributionsByRepository'',
          JArr [entry ''acme'' JNull True,
                JObj [(''repository'', JObj [(''owner'', JObj []), (''isPrivate'', JBool False)])],
                entry ''hidden'' (JStr ''Hidden'') True]),
       (''pullRequestContributionsByRepository'',
          JArr [entry ''HaythemSellami'' JNull False]),
       (''issueContributionsByRepository'',
          JArr [entry ''acme'' (JStr ''Acme'') False])])])])]"

definition example_platform :: platform where
  "example_platform sent token username year = Response 200 (Some example_response)"

definition acme_fetched :: json where
  "acme_fetched = JObj [(''login'', JStr ''acme''), (''name'', JStr ''acme''),
     (''avatarUrl'', JStr ''http://x/a.png''), (''url'', JStr ''http://x'')]"

definition entry_without_avatar :: "string \<Rightarrow> json \<Rightarrow> bool \<Rightarrow> json" where
  "entry_without_avatar l name private =
     JObj [(''repository'',
            JObj [(''owner'', JObj [(''login'', JStr l), (''name'', name),
                                    (''avatarUrl'', JStr []), (''url'', JStr ''http://x'')]),
                  (''isPrivate'', JBool private)]),
           (''contributions'', JObj [(''totalCount'', JNum 1)])]"

definition avatar_response :: json where
  "avatar_response =
     JObj [(''data'', JObj [(''user'', JObj [(''contributionsCollection'', JObj [
       (''commitContributionsByRepository'',
          JArr [entry_without_avatar ''acme'' (JStr ''Acme'') False,
                entry ''acme'' (JStr ''Acme'') True,
                entry_without_avatar ''beta'' (JStr ''First'') False]),
       (''pullRequestContributionsByRepository'',
          JArr [entry ''beta'' (JStr ''Second'') False])])])])]"

definition beta_fetched :: json where
  "beta_fetched = JObj [(''login'', JStr ''beta''), (''name'', JStr ''Second''),
     (''avatarUrl'', JStr ''http://x/a.png''), (''url'', JStr ''http://x'')]"

text \<open>Runs for the examples: two tokens, a failing year and a manual file; no token and a
  manual file; no token and a manual file with a record that has no login.\<close>

definition example_env :: env where
  "example_env =
     \<lparr>requests_installed = True,
      GITHUB_TOKEN = Some ''tok1, tok2'',
      current_year = 2017,
      platform = (\<lambda>sent token username year.
                    if year = 2017 then Response 502 None else example_platform sent token username year),
      manual = Content (JObj [(''2016'', JArr [acme_manual])]),
      output_writable = True,
      print_ok = (\<lambda>n. True),
      flush_ok = True\<rparr>"

definition manual_only_env :: env where
  "manual_only_env =
     \<lparr>requests_installed = True,
      GITHUB_TOKEN = None,
      current_year = 2017,
      platform = (\<lambda>sent token username year. ConnectionFailed),
      manual = Content (JObj [(''2020'', JArr [acme_manual])]),
      output_writable = True,
      print_ok = (\<lambda>n. True),
      flush_ok = True\<rparr>"

definition broken_manual_env :: env where
  "broken_manual_env =
     \<lparr>requests_installed = True,
      GITHUB_TOKEN = None,
      current_year = 2017,
      platform = (\<lambda>sent token username year. ConnectionFailed),
      manual = Content (JObj [(''2020'', JArr [JObj [(''name'', JStr ''Acme'')]])]),
      output_writable = True,
      print_ok = (\<lambda>n. True),
      flush_ok = True\<rparr>"

section \<open>Properties of the merger\<close>

lemma bindE_Inl [simp]: "bindE (Inl e) f = Inl e" by (simp add: bindE_def)
lemma bindE_Inr [simp]: "bindE (Inr x) f = f x" by (simp add: bindE_def)
lemma bindE_eq_Inr: "bindE m f = Inr y \<longleftrightarrow> (\<exists>x. m = Inr x \<and> f x = Inr y)"
  by (cases m) auto

lemma set_update_cases: "x \<in> set (AList.update k v al) \<Longrightarrow> x = (k, v) \<or> x \<in> set al"
  by (induction al) (auto split: if_splits)

lemma update_fresh: "k \<notin> fst ` set al \<Longrightarrow> AList.update k v al = al @ [(k, v)]"
  by (induction al) auto

lemma keyed_update: "keyed d \<Longrightarrow> login_key org = Inr k \<Longrightarrow> keyed (AList.update k org d)"
  unfolding keyed_def by (auto dest!: set_update_cases)

lemma index_by_login_inv:
  "index_by_login xs d = Inr d' \<Longrightarrow> distinct (map fst d) \<Longrightarrow> keyed d \<Longrightarrow> distinct (map fst d') \<and> keyed d'"
proof (induction xs arbitrary: d)
  case Nil then show ?case by simp
next
  case (Cons org xs)
  from Cons.prems(1) obtain k k' where k: "py_getitem org ''login'' = Inr k" "hash_key k = Inr k'"
    and r: "index_by_login xs (AList.update k' org d) = Inr d'"
    by (auto simp: bindE_eq_Inr)
  have "login_key org = Inr k'" using k by (simp add: login_key_def)
  then have "keyed (AList.update k' org d)" using Cons.prems(3) by (rule keyed_update[rotated])
  moreover have "distinct (map fst (AList.update k' org d))" using Cons.prems(2) by (simp add: distinct_update)
  ultimately show ?case using Cons.IH[OF r] by simp
qed

lemma index_by_login_values:
  "keyed c \<Longrightarrow> distinct (map fst (d @ c)) \<Longrightarrow> index_by_login (map snd c) d = Inr (d @ c)"
proof (induction c arbitrary: d)
  case Nil then show ?case by simp
next
  case (Cons kv c)
  obtain k v where kv: "kv = (k, v)" by (cases kv)
  have lk: "login_key v = Inr k" using Cons.prems(1) by (simp add: keyed_def kv)
  then obtain j where j: "py_getitem v ''login'' = Inr j" "hash_key j = Inr k"
    by (auto simp: login_key_def bindE_eq_Inr)
  have fresh: "k \<notin> fst ` set d" using Cons.prems(2) by (auto simp: kv)
  have kc: "keyed c" using Cons.prems(1) by (simp add: keyed_def)
  have "distinct (map fst ((d @ [(k, v)]) @ c))" using Cons.prems(2) by (simp add: kv)
  from Cons.IH[OF kc this] show ?case
    by (simp add: kv j update_fresh[OF fresh])
qed

lemma dict_union_Nil [simp]: "dict_union a [] = a" by (simp add: dict_union_def)
lemma dict_union_Cons [simp]: "dict_union a (kv # b) = dict_union (AList.update (fst kv) (snd kv) a) b"
  by (simp add: dict_union_def)

lemma dict_union_distinct: "distinct (map fst a) \<Longrightarrow> distinct (map fst (dict_union a b))"
  by (induction b arbitrary: a) (auto simp: distinct_update)

lemma dict_union_keyed: "keyed a \<Longrightarrow> keyed b \<Longrightarrow> keyed (dict_union a b)"
proof (induction b arbitrary: a)
  case Nil then show ?case by simp
next
  case (Cons kv b)
  have "keyed (AList.update (fst kv) (snd kv) a)"
    using Cons.prems by (intro keyed_update) (auto simp: keyed_def)
  moreover have "keyed b" using Cons.prems(2) by (simp add: keyed_def)
  ultimately show ?case using Cons.IH by simp
qed

lemma dict_union_other: "k \<notin> fst ` set b \<Longrightarrow> map_of (dict_union a b) k = map_of a k"
  by (induction b arbitrary: a) (auto simp: update_conv')

lemma dict_union_right:
  "distinct (map fst b) \<Longrightarrow> (k, v) \<in> set b \<Longrightarrow> map_of (dict_union a b) k = Some v"
proof (induction b arbitrary: a)
  case Nil then show ?case by simp
next
  case (Cons kv b)
  show ?case
  proof (cases "kv = (k, v)")
    case True
    then have "k \<notin> fst ` set b" using Cons.prems(1) by auto
    then show ?thesis using True by (simp add: dict_union_other update_conv')
  next
    case False
    then show ?thesis using Cons by auto
  qed
qed

lemma dict_union_absorb:
  "\<forall>kv \<in> set b. map_of c (fst kv) = Some (snd kv) \<Longrightarrow> dict_union c b = c"
  by (induction b) (auto simp: update_triv)

lemma dict_union_idem:
  assumes "distinct (map fst b)"
  shows "dict_union (dict_union a b) b = dict_union a b"
  by (rule dict_union_absorb) (auto simp: dict_union_right[OF assms])

lemma index_by_login_lookup:
  "index_by_login xs d = Inr d' \<Longrightarrow>
   map_of d' k = (case [x \<leftarrow> xs. login_key x = Inr k] of [] \<Rightarrow> map_of d k | y # ys \<Rightarrow> Some (last (y # ys)))"
proof (induction xs arbitrary: d)
  case Nil then show ?case by simp
next
  case (Cons org xs)
  from Cons.prems obtain j k' where k: "py_getitem org ''login'' = Inr j" "hash_key j = Inr k'"
    and r: "index_by_login xs (AList.update k' org d) = Inr d'"
    by (auto simp: bindE_eq_Inr)
  have lk: "login_key org = Inr k'" using k by (simp add: login_key_def)
  show ?case using Cons.IH[OF r] lk
    by (auto simp: update_conv' split: list.splits)
qed

lemma keyed_filter_values:
  "keyed c \<Longrightarrow> distinct (map fst c) \<Longrightarrow> map_of c k = Some v \<Longrightarrow>
   [x \<leftarrow> map snd c. login_key x = Inr k] = [v]"
proof (induction c)
  case Nil then show ?case by simp
next
  case (Cons kv c)
  have kc: "keyed c" and dc: "distinct (map fst c)" using Cons.prems by (auto simp: keyed_def)
  have none: "k' \<notin> fst ` set c \<Longrightarrow> [x \<leftarrow> map snd c. login_key x = Inr k'] = []" for k'
    using kc by (auto simp: keyed_def filter_empty_conv image_iff)
  show ?case
  proof (cases "fst kv = k")
    case True
    then show ?thesis using Cons.prems none[of k] by (auto simp: keyed_def)
  next
    case False
    then show ?thesis using Cons.prems Cons.IH[OF kc dc] by (auto simp: keyed_def)
  qed
qed

lemma keyed_Nil [simp]: "keyed []" by (simp add: keyed_def)

lemma keyed_logins: "keyed c \<Longrightarrow> map login_key (map snd c) = map (Inr \<circ> fst) c"
  by (induction c) (auto simp: keyed_def)

text \<open>What one pass of the loop body returns.\<close>

lemma merge_year_shape:
  assumes "merge_year A B y = Inr v"
  obtains al a ml b where
    "bindE (py_get A y (JArr [])) py_iter = Inr al" "index_by_login al [] = Inr a"
    "bindE (py_get B y (JArr [])) py_iter = Inr ml" "index_by_login ml [] = Inr b"
    "v = JArr (map snd (dict_union a b))"
    "keyed a" "distinct (map fst a)" "keyed b" "distinct (map fst b)"
proof -
  from assms obtain av al a mv ml b where
    1: "py_get A y (JArr []) = Inr av" "py_iter av = Inr al" "index_by_login al [] = Inr a"
    and 2: "py_get B y (JArr []) = Inr mv" "py_iter mv = Inr ml" "index_by_login ml [] = Inr b"
    and 3: "v = JArr (map snd (dict_union a b))"
    unfolding merge_year_def by (auto simp: bindE_eq_Inr)
  have "keyed a" "distinct (map fst a)" using index_by_login_inv[OF 1(3)] by simp_all
  moreover have "keyed b" "distinct (map fst b)" using index_by_login_inv[OF 2(3)] by simp_all
  ultimately show ?thesis using that[of al a ml b] 1 2 3 by simp
qed

lemma merge_year_again:
  assumes "merge_year A B y = Inr v" and "py_get M y (JArr []) = Inr v"
  shows "merge_year M B y = Inr v"
proof -
  from assms(1) obtain al a ml b where
    s: "bindE (py_get B y (JArr [])) py_iter = Inr ml" "index_by_login ml [] = Inr b"
    "v = JArr (map snd (dict_union a b))"
    "keyed a" "distinct (map fst a)" "keyed b" "distinct (map fst b)"
    by (rule merge_year_shape)
  define c where "c = dict_union a b"
  have c: "keyed c" "distinct (map fst c)"
    using s by (simp_all add: c_def dict_union_keyed dict_union_distinct)
  have i: "index_by_login (map snd c) [] = Inr c"
    using index_by_login_values[of c "[]"] c by simp
  have u: "dict_union c b = c" unfolding c_def using s(7) by (rule dict_union_idem)
  from s(1) obtain mv where mv: "py_get B y (JArr []) = Inr mv" "py_iter mv = Inr ml"
    by (auto simp: bindE_eq_Inr)
  show ?thesis
    unfolding merge_year_def using assms(2) s(2,3) mv i u by (simp add: c_def[symmetric])
qed

lemma returns_simps [simp]: "returns (Inr x)" "\<not> returns (Inl e)"
  by (simp_all add: returns_def)

lemma returns_iff: "returns m \<longleftrightarrow> (\<exists>x. m = Inr x)"
  by (cases m) auto

lemma merge_years_lookup:
  "merge_years A B ys acc = Inr m \<Longrightarrow>
   map_of m y = (if y \<in> set ys then Some (projr (merge_year A B y)) else map_of acc y) \<and>
   (\<forall>y \<in> set ys. returns (merge_year A B y))"
proof (induction ys arbitrary: acc)
  case Nil then show ?case by simp
next
  case (Cons x ys)
  from Cons.prems obtain v where v: "merge_year A B x = Inr v"
    and r: "merge_years A B ys (AList.update x v acc) = Inr m"
    by (auto simp: bindE_eq_Inr)
  show ?case using Cons.IH[OF r] v by (auto simp: update_conv')
qed

lemma merge_years_returns:
  "\<forall>y \<in> set ys. returns (merge_year A B y) \<Longrightarrow> \<exists>m. merge_years A B ys acc = Inr m"
proof (induction ys arbitrary: acc)
  case Nil then show ?case by simp
next
  case (Cons x ys)
  then obtain v where "merge_year A B x = Inr v" by (auto simp: returns_iff)
  then show ?case using Cons by simp
qed

lemma merge_contributions_shape:
  assumes "merge_contributions A B = Inr M"
  obtains a b m where "A = JObj a" "B = JObj b" "M = JObj m"
    "merge_years A B (remdups (map fst a @ map fst b)) [] = Inr m"
proof -
  from assms obtain ak mk m where k: "py_keys A = Inr ak" "py_keys B = Inr mk"
    and m: "merge_years A B (remdups (ak @ mk)) [] = Inr m" "M = JObj m"
    unfolding merge_contributions_def by (auto simp: bindE_eq_Inr)
  from k obtain a b where "A = JObj a" "ak = map fst a" "B = JObj b" "mk = map fst b"
    by (cases A; cases B) auto
  then show ?thesis using that m by simp
qed

lemma merge_contributions_lookup:
  assumes "merge_contributions (JObj a) (JObj b) = Inr (JObj m)"
  shows "map_of m y = (if y \<in> fst ` set a \<union> fst ` set b
                        then Some (projr (merge_year (JObj a) (JObj b) y)) else None)"
    and "y \<in> fst ` set a \<union> fst ` set b \<Longrightarrow> returns (merge_year (JObj a) (JObj b) y)"
proof -
  from assms have m: "merge_years (JObj a) (JObj b) (remdups (map fst a @ map fst b)) [] = Inr m"
    by (auto elim!: merge_contributions_shape)
  show "map_of m y = (if y \<in> fst ` set a \<union> fst ` set b
                        then Some (projr (merge_year (JObj a) (JObj b) y)) else None)"
    using merge_years_lookup[OF m, of y] by auto
  show "y \<in> fst ` set a \<union> fst ` set b \<Longrightarrow> returns (merge_year (JObj a) (JObj b) y)"
    using merge_years_lookup[OF m, of y] by auto
qed

lemma merge_contributions_returns:
  assumes "\<forall>y \<in> fst ` set a \<union> fst ` set b. returns (merge_year (JObj a) (JObj b) y)"
  shows "\<exists>m. merge_contributions (JObj a) (JObj b) = Inr (JObj m)"
proof -
  have "\<exists>m. merge_years (JObj a) (JObj b) (remdups (map fst a @ map fst b)) [] = Inr m"
    using assms by (intro merge_years_returns) auto
  then show ?thesis by (auto simp: merge_contributions_def)
qed

lemma merge_twice:
  assumes "merge_contributions A B = Inr M"
  shows "\<exists>m m'. M = JObj m \<and> merge_contributions M B = Inr (JObj m') \<and> map_of m' = map_of m"
proof -
  from assms obtain a b m where s: "A = JObj a" "B = JObj b" "M = JObj m"
    by (rule merge_contributions_shape)
  note l = merge_contributions_lookup[OF assms[unfolded s]]
  have dom: "fst ` set m = fst ` set a \<union> fst ` set b"
  proof -
    have "dom (map_of m) = fst ` set a \<union> fst ` set b"
      unfolding dom_def l(1) by auto
    then show ?thesis by (simp add: dom_map_of_conv_image_fst)
  qed
  have again: "merge_year (JObj m) (JObj b) y = merge_year (JObj a) (JObj b) y"
    if "y \<in> fst ` set a \<union> fst ` set b" for y
  proof -
    from l(2)[OF that] obtain v where v: "merge_year (JObj a) (JObj b) y = Inr v"
      by (auto simp: returns_iff)
    have "py_get (JObj m) y (JArr []) = Inr v" using l(1)[of y] that v by simp
    from merge_year_again[OF v this] v show ?thesis by simp
  qed
  have "\<forall>y \<in> fst ` set m \<union> fst ` set b. returns (merge_year (JObj m) (JObj b) y)"
    using again l(2) dom by auto
  then obtain m' where m': "merge_contributions (JObj m) (JObj b) = Inr (JObj m')"
    using merge_contributions_returns by blast
  have "map_of m' y = map_of m y" for y
    using merge_contributions_lookup(1)[OF m', of y] l(1)[of y] again[of y] dom by auto
  then show ?thesis using s m' by auto
qed

lemma is_org_login_key: "is_org org \<Longrightarrow> returns (login_key org)"
  by (cases org) (auto simp: login_key_def split: option.splits json.splits)

lemma index_by_login_returns: "list_all is_org xs \<Longrightarrow> returns (index_by_login xs d)"
proof (induction xs arbitrary: d)
  case Nil then show ?case by simp
next
  case (Cons org xs)
  then obtain k where "login_key org = Inr k"
    using is_org_login_key[of org] by (auto simp: returns_iff)
  then obtain j where "py_getitem org ''login'' = Inr j" "hash_key j = Inr k"
    by (auto simp: login_key_def bindE_eq_Inr)
  then show ?case using Cons by simp
qed

lemma is_dataset_bucket:
  assumes "is_dataset A"
  shows "\<exists>al. py_get A y (JArr []) = Inr (JArr al) \<and> list_all is_org al"
proof -
  from assms obtain a where a: "A = JObj a" by (cases A) auto
  show ?thesis
  proof (cases "map_of a y")
    case None then show ?thesis by (simp add: a)
  next
    case (Some v)
    then have "(y, v) \<in> set a" by (rule map_of_SomeD)
    then have "case v of JArr rs \<Rightarrow> list_all is_org rs | _ \<Rightarrow> False"
      using assms by (auto simp: a list_all_iff)
    then show ?thesis using Some by (cases v) (auto simp: a)
  qed
qed

lemma is_dataset_merge_year:
  assumes "is_dataset A" "is_dataset B"
  shows "returns (merge_year A B y)"
proof -
  from is_dataset_bucket[OF assms(1), of y] obtain al where
    al: "py_get A y (JArr []) = Inr (JArr al)" "list_all is_org al" by blast
  from is_dataset_bucket[OF assms(2), of y] obtain ml where
    ml: "py_get B y (JArr []) = Inr (JArr ml)" "list_all is_org ml" by blast
  from index_by_login_returns[OF al(2), of "[]"] obtain a where a: "index_by_login al [] = Inr a"
    by (auto simp: returns_iff)
  from index_by_login_returns[OF ml(2), of "[]"] obtain b where b: "index_by_login ml [] = Inr b"
    by (auto simp: returns_iff)
  show ?thesis by (simp add: merge_year_def al ml a b)
qed

lemma is_dataset_merge:
  assumes "is_dataset A" "is_dataset B"
  shows "\<exists>m. merge_contributions A B = Inr (JObj m)"
proof -
  from assms obtain a b where ab: "A = JObj a" "B = JObj b" by (cases A; cases B) auto
  show ?thesis unfolding ab
    by (rule merge_contributions_returns) (use assms ab is_dataset_merge_year in blast)
qed

lemma merge_years_distinct:
  "merge_years A B ys acc = Inr m \<Longrightarrow> distinct (map fst acc) \<Longrightarrow> distinct (map fst m)"
proof (induction ys arbitrary: acc)
  case Nil then show ?case by simp
next
  case (Cons x ys)
  from Cons.prems(1) obtain v where "merge_years A B ys (AList.update x v acc) = Inr m"
    by (auto simp: bindE_eq_Inr)
  then show ?case using Cons.IH Cons.prems(2) by (simp add: distinct_update)
qed

lemma merge_contributions_distinct:
  assumes "merge_contributions A B = Inr (JObj m)"
  shows "distinct (map fst m)"
  using assms by (auto elim!: merge_contributions_shape dest: merge_years_distinct)

lemma merge_contributions_bucket:
  assumes "merge_contributions A B = Inr (JObj m)" and "map_of m y = Some v"
  shows "merge_year A B y = Inr v"
proof -
  from assms(1) obtain a b where s: "A = JObj a" "B = JObj b"
    by (rule merge_contributions_shape)
  note l = merge_contributions_lookup[OF assms(1)[unfolded s], of y]
  from l(1) assms(2) have "y \<in> fst ` set a \<union> fst ` set b" by (auto split: if_splits)
  with l assms(2) show ?thesis unfolding s by (auto simp: returns_iff)
qed

text \<open>
  Claim C1, as amended. In the dataset that \<^verbatim>\<open>merge_contributions\<close> returns, the records of
  every year bucket have pairwise distinct dict keys: no two records of a bucket have the
  same \<^verbatim>\<open>login\<close>, compared exactly (with its case).
\<close>

theorem merged_logins_distinct:
  assumes "merge_contributions A B = Inr (JObj m)" and "(year, bucket) \<in> set m"
  shows "\<exists>rs. bucket = JArr rs \<and> distinct (map login_key rs)"
proof -
  have "map_of m year = Some bucket"
    using merge_contributions_distinct[OF assms(1)] assms(2) by simp
  then have "merge_year A B year = Inr bucket"
    by (rule merge_contributions_bucket[OF assms(1)])
  then obtain a b where s: "bucket = JArr (map snd (dict_union a b))"
    "keyed a" "distinct (map fst a)" "keyed b" "distinct (map fst b)"
    by (rule merge_year_shape)
  define c where "c = dict_union a b"
  have c: "keyed c" "distinct (map fst c)"
    using s by (simp_all add: c_def dict_union_keyed dict_union_distinct)
  have "map login_key (map snd c) = map (Inr \<circ> fst) c" using c(1) by (rule keyed_logins)
  also have "\<dots> = map Inr (map fst c)" by simp
  finally have "distinct (map login_key (map snd c))"
    using c(2) by (simp only: distinct_map) (auto simp: inj_on_def)
  then show ?thesis using s(1) by (simp add: c_def)
qed

theorem merged_logins_distinct_witness:
  "merge_contributions (JObj [(''2020'', JArr [acme_auto])]) (JObj [(''2020'', JArr [Acme_manual])])
     = Inr (JObj [(''2020'', JArr [acme_auto, Acme_manual])])
   \<and> (''2020'', JArr [acme_auto, Acme_manual]) \<in> set [(''2020'', JArr [acme_auto, Acme_manual])]
   \<and> (\<exists>rs. JArr [acme_auto, Acme_manual] = JArr rs \<and> distinct (map login_key rs))"
proof -
  have m: "merge_contributions (JObj [(''2020'', JArr [acme_auto])]) (JObj [(''2020'', JArr [Acme_manual])])
     = Inr (JObj [(''2020'', JArr [acme_auto, Acme_manual])])"
    by (simp add: merge_contributions_def merge_year_def acme_auto_def Acme_manual_def)
  have i: "(''2020'', JArr [acme_auto, Acme_manual]) \<in> set [(''2020'', JArr [acme_auto, Acme_manual])]"
    by simp
  from merged_logins_distinct[OF m i] m i show ?thesis by blast
qed

text \<open>
  Claim C1 as stated asks for distinct lowercase logins. The merger files records under
  the login as it is written: an automatic \<^verbatim>\<open>acme\<close> and a manual \<^verbatim>\<open>Acme\<close> both stay in the
  bucket.
\<close>

theorem lowercase_identity_counterexample:
  "merge_contributions (JObj [(''2020'', JArr [acme_auto])]) (JObj [(''2020'', JArr [Acme_manual])])
     = Inr (JObj [(''2020'', JArr [acme_auto, Acme_manual])])
   \<and> \<not> distinct (map lowercase_login [acme_auto, Acme_manual])"
  by code_simp

text \<open>
  Claim C2. For contribution datasets \<^verbatim>\<open>A\<close> and \<^verbatim>\<open>B\<close>, \<^verbatim>\<open>merge(A, B)\<close> returns a dataset, merging
  it with \<^verbatim>\<open>B\<close> again returns a dataset, and the two are equal as dicts: the same years,
  and under each year the same list of records in the same order.
\<close>

theorem merge_idempotent:
  assumes "is_dataset A" and "is_dataset B"
  shows "\<exists>m m'. merge_contributions A B = Inr (JObj m)
           \<and> merge_contributions (JObj m) B = Inr (JObj m') \<and> map_of m' = map_of m"
proof -
  from is_dataset_merge[OF assms] obtain m where m: "merge_contributions A B = Inr (JObj m)"
    by blast
  from merge_twice[OF m] m show ?thesis by auto
qed

theorem merge_idempotent_witness:
  "is_dataset (JObj [(''2021'', JArr [acme_auto]), (''2020'', JArr [])])
   \<and> is_dataset (JObj [(''2021'', JArr [acme_manual]), (''2019'', JArr [Acme_manual])])
   \<and> (\<exists>m m'. merge_contributions (JObj [(''2021'', JArr [acme_auto]), (''2020'', JArr [])])
                (JObj [(''2021'', JArr [acme_manual]), (''2019'', JArr [Acme_manual])]) = Inr (JObj m)
           \<and> merge_contributions (JObj m)
                (JObj [(''2021'', JArr [acme_manual]), (''2019'', JArr [Acme_manual])]) = Inr (JObj m')
           \<and> map_of m' = map_of m)"
proof -
  have a: "is_dataset (JObj [(''2021'', JArr [acme_auto]), (''2020'', JArr [])])"
    by (simp add: acme_auto_def)
  have b: "is_dataset (JObj [(''2021'', JArr [acme_manual]), (''2019'', JArr [Acme_manual])])"
    by (simp add: acme_manual_def Acme_manual_def)
  from merge_idempotent[OF a b] a b show ?thesis by blast
qed

text \<open>
  Claim C3. When the manual list of a year holds a record with some login, the merged
  bucket of that year holds exactly one record with that login, and it is the manual
  record itself (the last one, should the manual list repeat the login), whatever the
  automatic list holds under that login: the record is replaced as a whole.
\<close>

theorem manual_precedence:
  assumes "merge_contributions A B = Inr (JObj m)"
    and "py_get B year (JArr []) = Inr (JArr ms)"
    and "[x \<leftarrow> ms. login_key x = Inr k] \<noteq> []"
  shows "\<exists>rs. map_of m year = Some (JArr rs)
           \<and> [x \<leftarrow> rs. login_key x = Inr k] = [last [x \<leftarrow> ms. login_key x = Inr k]]"
proof -
  from assms(1) obtain a b where s: "A = JObj a" "B = JObj b"
    by (rule merge_contributions_shape)
  have "map_of b year \<noteq> None" using assms(2,3) by (auto simp: s split: option.splits)
  then have "year \<in> dom (map_of b)" by auto
  then have yin: "year \<in> fst ` set a \<union> fst ` set b"
    by (simp add: dom_map_of_conv_image_fst)
  note l = merge_contributions_lookup[OF assms(1)[unfolded s], of year]
  from l yin obtain v where v: "merge_year A B year = Inr v" "map_of m year = Some v"
    unfolding s by (auto simp: returns_iff)
  from v(1) obtain ml ao mo where sh:
    "bindE (py_get B year (JArr [])) py_iter = Inr ml" "index_by_login ml [] = Inr mo"
    "v = JArr (map snd (dict_union ao mo))"
    "keyed ao" "distinct (map fst ao)" "keyed mo" "distinct (map fst mo)"
    by (rule merge_year_shape)
  have ml: "ml = ms" using sh(1) assms(2) by simp
  define r where "r = last [x \<leftarrow> ms. login_key x = Inr k]"
  have "map_of mo k = Some r"
    using index_by_login_lookup[OF sh(2), of k] assms(3)
    by (simp add: ml r_def split: list.splits)
  then have "(k, r) \<in> set mo" by (rule map_of_SomeD)
  then have look: "map_of (dict_union ao mo) k = Some r"
    by (rule dict_union_right[OF sh(7)])
  have "[x \<leftarrow> map snd (dict_union ao mo). login_key x = Inr k] = [r]"
    using sh(4-7) look by (intro keyed_filter_values dict_union_keyed dict_union_distinct)
  then show ?thesis using v(2) sh(3) by (simp add: r_def)
qed

theorem manual_precedence_witness:
  "merge_contributions (JObj [(''2021'', JArr [acme_auto])]) (JObj [(''2021'', JArr [acme_manual])])
     = Inr (JObj [(''2021'', JArr [acme_manual])])
   \<and> py_get (JObj [(''2021'', JArr [acme_manual])]) ''2021'' (JArr []) = Inr (JArr [acme_manual])
   \<and> [x \<leftarrow> [acme_manual]. login_key x = Inr (JStr ''acme'')] \<noteq> []
   \<and> (\<exists>rs. map_of [(''2021'', JArr [acme_manual])] ''2021'' = Some (JArr rs)
           \<and> [x \<leftarrow> rs. login_key x = Inr (JStr ''acme'')]
               = [last [x \<leftarrow> [acme_manual]. login_key x = Inr (JStr ''acme'')]])"
proof -
  have m: "merge_contributions (JObj [(''2021'', JArr [acme_auto])]) (JObj [(''2021'', JArr [acme_manual])])
     = Inr (JObj [(''2021'', JArr [acme_manual])])"
    by (simp add: merge_contributions_def merge_year_def acme_auto_def acme_manual_def)
  have g: "py_get (JObj [(''2021'', JArr [acme_manual])]) ''2021'' (JArr []) = Inr (JArr [acme_manual])"
    by simp
  have f: "[x \<leftarrow> [acme_manual]. login_key x = Inr (JStr ''acme'')] \<noteq> []"
    by (simp add: login_key_def acme_manual_def)
  from manual_precedence[OF m g f] m g f show ?thesis by blast
qed

section \<open>Properties of the fetcher\<close>

lemma py_get_field: "py_get x k JNull = Inr v \<Longrightarrow> field x k = v"
  by (cases x) (auto simp: field_def split: option.splits)

lemma py_get_field_obj: "py_get x k (JObj []) = Inr v \<Longrightarrow> field v k' = field (field x k) k'"
  by (cases x) (auto simp: field_def split: option.splits)

lemma process_entry_step:
  assumes "process_entry username st e = Inr st'"
  shows "st' = step username st e"
proof -
  from assms obtain repo owner login where
    g: "py_get e ''repository'' (JObj []) = Inr repo" "py_get repo ''owner'' (JObj []) = Inr owner"
       "py_get owner ''login'' JNull = Inr login"
    unfolding process_entry_def by (auto simp: bindE_eq_Inr)
  have fr: "field repo k = field (entry_repo e) k" for k
    using py_get_field_obj[OF g(1)] by (simp add: entry_repo_def)
  have fo: "field owner k = field (entry_owner e) k" for k
    using py_get_field_obj[OF g(2), of k] fr[of "''owner''"] by (simp add: entry_owner_def)
  note f = fo fr
  obtain okvs where o: "owner = JObj okvs" using g(3) by (cases owner) auto
  obtain rkvs where r: "repo = JObj rkvs" using g(2) by (cases repo) auto
  have pg: "py_get owner k JNull = Inr (field (entry_owner e) k)"
    "py_get repo k JNull = Inr (field (entry_repo e) k)" for k
    using f(1)[of k] f(2)[of k] by (auto simp: o r field_def split: option.splits)
  have login: "login = field (entry_owner e) ''login''" using g(3) pg by simp
  show ?thesis
    using assms unfolding process_entry_def g bindE_Inr pg login[symmetric]
    by (cases login; cases "truthy (field (entry_owner e) ''avatarUrl'')")
       (auto simp: step_def accepted_login_def entry_private_def org_record_def Let_def login[symmetric]
          update_fresh split: if_splits)
qed

lemma process_repos_fold:
  "process_repos username st es = Inr st' \<Longrightarrow> st' = foldl (step username) st es"
proof (induction es arbitrary: st)
  case Nil then show ?case by simp
next
  case (Cons e es)
  from Cons.prems obtain st1 where 1: "process_entry username st e = Inr st1"
    and 2: "process_repos username st1 es = Inr st'"
    by (auto simp: bindE_eq_Inr)
  show ?case using Cons.IH[OF 2] process_entry_step[OF 1] by simp
qed

lemma entries_of_iter:
  assumes "py_get c t (JArr []) = Inr repos" and "py_iter repos = Inr es"
  shows "entries_of c t = es"
proof -
  from assms(1) obtain kvs where c: "c = JObj kvs" by (cases c) auto
  show ?thesis
  proof (cases "map_of kvs t")
    case None
    then show ?thesis using assms by (auto simp: c entries_of_def field_def)
  next
    case (Some v)
    then show ?thesis using assms by (auto simp: c entries_of_def field_def)
  qed
qed

lemma process_types_fold:
  "process_types username c st ts = Inr st' \<Longrightarrow>
   st' = foldl (step username) st (concat (map (entries_of c) ts))"
proof (induction ts arbitrary: st)
  case Nil then show ?case by simp
next
  case (Cons t ts)
  from Cons.prems obtain repos es st1 where
    1: "py_get c t (JArr []) = Inr repos" "py_iter repos = Inr es"
    and 2: "process_repos username st es = Inr st1"
    and 3: "process_types username c st1 ts = Inr st'"
    by (auto simp: bindE_eq_Inr)
  show ?case
    using Cons.IH[OF 3] process_repos_fold[OF 2] entries_of_iter[OF 1] by simp
qed

lemma fetch_scan:
  assumes "fst (get_contributions_for_year post sent token username year) = Inr res"
  shows "res = [org \<leftarrow> map snd (orgs (scan username (scanned_entries (post sent token username year)))).
                  has_public (orgs_with_public (scan username (scanned_entries (post sent token username year)))) org]"
proof (cases "post sent token username year")
  case ConnectionFailed
  then show ?thesis using assms by (simp add: get_contributions_for_year_def requests_post_def)
next
  case (Response status_code body)
  show ?thesis
  proof (cases "status_code = 200")
    case False
    then show ?thesis using assms Response
      by (auto simp: get_contributions_for_year_def requests_post_def scanned_entries_def scan_def split: option.splits)
  next
    case True
    with assms Response obtain data where body: "body = Some data"
      by (cases body) (auto simp: get_contributions_for_year_def requests_post_def)
    from assms Response True body obtain b where b: "py_contains data ''errors'' = Inr b"
      by (auto simp: get_contributions_for_year_def requests_post_def bindE_eq_Inr)
    show ?thesis
    proof (cases b)
      case True
      then show ?thesis using assms Response \<open>status_code = 200\<close> body b
        by (simp add: get_contributions_for_year_def requests_post_def scanned_entries_def scan_def)
    next
      case False
      with assms Response \<open>status_code = 200\<close> body b obtain d u c st where
        g: "py_get data ''data'' (JObj []) = Inr d" "py_get d ''user'' (JObj []) = Inr u"
           "py_get u ''contributionsCollection'' (JObj []) = Inr c"
        and p: "process_types username c \<lparr>orgs = [], orgs_with_public = {}\<rparr> contribution_types = Inr st"
        and r: "res = [org \<leftarrow> map snd (orgs st). has_public (orgs_with_public st) org]"
        by (auto simp: get_contributions_for_year_def requests_post_def bindE_eq_Inr)
      have "field d k = field (field data ''data'') k" for k by (rule py_get_field_obj[OF g(1)])
      then have "field u k = field (field (field data ''data'') ''user'') k" for k
        using py_get_field_obj[OF g(2), of k] by simp
      then have c: "field c k = field (field (field (field data ''data'') ''user'') ''contributionsCollection'') k" for k
        using py_get_field_obj[OF g(3), of k] by simp
      have "entries_of c = entries_of (field (field (field data ''data'') ''user'') ''contributionsCollection'')"
        by (rule ext) (simp add: entries_of_def c)
      then have "st = scan username (response_entries data)"
        using process_types_fold[OF p] by (simp add: scan_def response_entries_def contribution_types_def Let_def)
      then show ?thesis using r Response \<open>status_code = 200\<close> body b False
        by (simp add: scanned_entries_def)
    qed
  qed
qed

lemma step_lookup:
  "map_of (orgs (step username st e)) l =
     (case map_of (orgs st) l of Some r \<Rightarrow> Some r
      | None \<Rightarrow> if accepted_login username e = Some l
                then Some (org_record (entry_owner e) l) else None)"
proof (cases "accepted_login username e")
  case None then show ?thesis by (simp add: step_def split: option.splits)
next
  case (Some k)
  show ?thesis
  proof (cases "k \<in> fst ` set (orgs st)")
    case True
    then have "map_of (orgs st) k \<noteq> None" by (simp add: map_of_eq_None_iff)
    then show ?thesis using Some True by (auto simp: step_def split: option.splits)
  next
    case False
    then have "map_of (orgs st) k = None" by (simp add: map_of_eq_None_iff)
    then show ?thesis using Some False
      by (auto simp: step_def map_add_def split: option.splits)
  qed
qed

lemma step_public:
  "orgs_with_public (step username st e) =
     orgs_with_public st \<union> {l. accepted_login username e = Some l \<and> \<not> entry_private e}"
  by (auto simp: step_def split: option.splits)

lemma step_distinct:
  "distinct (map fst (orgs st)) \<Longrightarrow> distinct (map fst (orgs (step username st e)))"
  by (auto simp: step_def split: option.splits)

lemma scan_lookup:
  "map_of (orgs (foldl (step username) st es)) l =
     (case map_of (orgs st) l of Some r \<Rightarrow> Some r
      | None \<Rightarrow> map_option (\<lambda>e. org_record (entry_owner e) l) (first_accepted username es l))"
proof (induction es arbitrary: st)
  case Nil then show ?case by (simp add: first_accepted_def split: option.splits)
next
  case (Cons e es)
  show ?case
    by (simp add: Cons.IH step_lookup first_accepted_def split: option.splits)
qed

lemma scan_public:
  "orgs_with_public (foldl (step username) st es) =
     orgs_with_public st \<union> {l. has_public_entry username es l}"
proof (induction es arbitrary: st)
  case Nil then show ?case by (simp add: has_public_entry_def)
next
  case (Cons e es)
  show ?case by (auto simp: Cons.IH step_public has_public_entry_def)
qed

lemma scan_distinct:
  "distinct (map fst (orgs st)) \<Longrightarrow> distinct (map fst (orgs (foldl (step username) st es)))"
  by (induction es arbitrary: st) (simp_all add: step_distinct)

lemma accepted_login_iff:
  "accepted_login username e = Some l \<longleftrightarrow>
     owned_by l e \<and> valid_owner_fields e \<and> lower l \<noteq> lower username"
  by (auto simp: accepted_login_def owned_by_def valid_owner_fields_def split: json.splits)

lemma first_accepted_login:
  "first_accepted username es l = Some e \<Longrightarrow> accepted_login username e = Some l \<and> e \<in> set es"
  by (auto simp: first_accepted_def find_Some_iff)

lemma org_record_login [simp]: "py_getitem (org_record owner l) ''login'' = Inr (JStr l)"
  by (simp add: org_record_def)

text \<open>The returned list, read off the entries that were scanned.\<close>

lemma fetch_result:
  assumes "fst (get_contributions_for_year post sent token username year) = Inr res"
  defines "es \<equiv> scanned_entries (post sent token username year)"
  shows "distinct (map (\<lambda>r. py_getitem r ''login'') res)"
    and "r \<in> set res \<longleftrightarrow>
           (\<exists>l e. first_accepted username es l = Some e \<and> r = org_record (entry_owner e) l
                  \<and> has_public_entry username es l)"
proof -
  define st where "st = scan username es"
  have res: "res = [org \<leftarrow> map snd (orgs st). has_public (orgs_with_public st) org]"
    unfolding st_def es_def by (rule fetch_scan[OF assms(1)])
  have look: "map_of (orgs st) l = map_option (\<lambda>e. org_record (entry_owner e) l) (first_accepted username es l)" for l
    unfolding st_def scan_def by (simp add: scan_lookup)
  have pub: "orgs_with_public st = {l. has_public_entry username es l}"
    unfolding st_def scan_def by (simp add: scan_public)
  have dist: "distinct (map fst (orgs st))"
    unfolding st_def scan_def by (rule scan_distinct) simp
  have mem: "(l, r) \<in> set (orgs st) \<longleftrightarrow>
               (\<exists>e. first_accepted username es l = Some e \<and> r = org_record (entry_owner e) l)" for l r
    using map_of_eq_Some_iff[OF dist, of l r] look[of l] by auto
  have key: "py_getitem (snd kv) ''login'' = Inr (JStr (fst kv))" if "kv \<in> set (orgs st)" for kv
    using that mem[of "fst kv" "snd kv"] by auto
  have hp: "has_public (orgs_with_public st) (snd kv) \<longleftrightarrow> has_public_entry username es (fst kv)"
    if "kv \<in> set (orgs st)" for kv
    using key[OF that] by (simp add: has_public_def pub)
  have res': "res = map snd [kv \<leftarrow> orgs st. has_public_entry username es (fst kv)]"
  proof -
    have "[kv \<leftarrow> orgs st. has_public (orgs_with_public st) (snd kv)]
            = [kv \<leftarrow> orgs st. has_public_entry username es (fst kv)]"
      by (rule filter_cong) (simp_all add: hp)
    then show ?thesis unfolding res filter_map by (simp add: comp_def)
  qed
  have "map (\<lambda>r. py_getitem r ''login'') res
          = map (\<lambda>kv. Inr (JStr (fst kv))) [kv \<leftarrow> orgs st. has_public_entry username es (fst kv)]"
    unfolding res' by (auto simp: key)
  also have "\<dots> = map (Inr \<circ> JStr) (map fst [kv \<leftarrow> orgs st. has_public_entry username es (fst kv)])"
    by simp
  finally have eq: "map (\<lambda>r. py_getitem r ''login'') res
      = map (Inr \<circ> JStr) (map fst [kv \<leftarrow> orgs st. has_public_entry username es (fst kv)])" .
  have "distinct (map fst [kv \<leftarrow> orgs st. has_public_entry username es (fst kv)])"
    using dist by (rule distinct_map_filter)
  then show "distinct (map (\<lambda>r. py_getitem r ''login'') res)"
    unfolding eq by (simp only: distinct_map[of "Inr \<circ> JStr"]) (auto simp: inj_on_def)
  show "r \<in> set res \<longleftrightarrow>
           (\<exists>l e. first_accepted username es l = Some e \<and> r = org_record (entry_owner e) l
                  \<and> has_public_entry username es l)"
    unfolding res' using mem by (auto simp: image_iff) 
qed

lemma example_fetch:
  "fst (get_contributions_for_year example_platform [] ''t'' GITHUB_USERNAME 2020) = Inr [acme_fetched]"
  by code_simp

lemma example_scanned:
  "scanned_entries (example_platform [] ''t'' GITHUB_USERNAME 2020) =
     [entry ''acme'' JNull True,
      JObj [(''repository'', JObj [(''owner'', JObj []), (''isPrivate'', JBool False)])],
      entry ''hidden'' (JStr ''Hidden'') True,
      entry ''HaythemSellami'' JNull False,
      entry ''acme'' (JStr ''Acme'') False]"
  by code_simp

text \<open>
  Claim C6. When the platform answers the request of a call with a status other than 200
  (every non-success status is one), or with status 200 and a body that is a dict with the
  key \<^verbatim>\<open>errors\<close>, the call returns the empty list: it returns, so no exception reaches the
  caller; and it leaves the log of requests longer by the one request of the call, so the
  platform was not asked a second time.
\<close>

theorem failed_fetch_is_empty:
  assumes "post sent token username year = Response status_code body"
    and "status_code \<noteq> 200 \<or> (\<exists>kvs. body = Some (JObj kvs) \<and> ''errors'' \<in> fst ` set kvs)"
  shows "get_contributions_for_year post sent token username year
           = (Inr [], sent @ [(token, username, year)])"
proof (cases "status_code = 200")
  case False
  then show ?thesis using assms(1) by (simp add: get_contributions_for_year_def requests_post_def)
next
  case True
  with assms(2) obtain kvs where body: "body = Some (JObj kvs)" and k: "''errors'' \<in> fst ` set kvs"
    by auto
  from k have "py_contains (JObj kvs) ''errors'' = Inr True" by simp
  then show ?thesis using assms(1) True body
    by (simp add: get_contributions_for_year_def requests_post_def)
qed

theorem failed_fetch_is_empty_witness:
  "get_contributions_for_year
       (\<lambda>sent token username year. if sent = [] then Response 502 None else Response 200 (Some example_response))
       [] ''t'' GITHUB_USERNAME 2020
     = (Inr [], [(''t'', GITHUB_USERNAME, 2020)])
   \<and> get_contributions_for_year
       (\<lambda>sent token username year.
          Response 200 (Some (JObj [(''data'', JNull), (''errors'', JArr [JStr ''rate limited''])])))
       [(''t'', GITHUB_USERNAME, 2021)] ''t'' GITHUB_USERNAME 2020
     = (Inr [], [(''t'', GITHUB_USERNAME, 2021), (''t'', GITHUB_USERNAME, 2020)])"
proof -
  have a: "get_contributions_for_year
       (\<lambda>sent token username year. if sent = [] then Response 502 None else Response 200 (Some example_response))
       [] ''t'' GITHUB_USERNAME 2020
     = (Inr [], [] @ [(''t'', GITHUB_USERNAME, 2020)])"
    by (rule failed_fetch_is_empty[where status_code = 502 and body = None]) simp_all
  have b: "get_contributions_for_year
       (\<lambda>sent token username year.
          Response 200 (Some (JObj [(''data'', JNull), (''errors'', JArr [JStr ''rate limited''])])))
       [(''t'', GITHUB_USERNAME, 2021)] ''t'' GITHUB_USERNAME 2020
     = (Inr [], [(''t'', GITHUB_USERNAME, 2021)] @ [(''t'', GITHUB_USERNAME, 2020)])"
    by (rule failed_fetch_is_empty[where status_code = 200
          and body = "Some (JObj [(''data'', JNull), (''errors'', JArr [JStr ''rate limited''])])"]) simp_all
  from a b show ?thesis by simp
qed

text \<open>
  Claim C7. Every record of the list that a fetch returns has a string login that differs
  from the user name even when both are put in lower case: an owner whose identifier is
  the user name up to case is never returned.
\<close>

theorem self_exclusion:
  assumes "fst (get_contributions_for_year post sent token username year) = Inr res" and "r \<in> set res"
  shows "\<exists>l. py_getitem r ''login'' = Inr (JStr l) \<and> lower l \<noteq> lower username"
proof -
  from fetch_result(2)[OF assms(1), of r] assms(2) obtain l e where
    e: "first_accepted username (scanned_entries (post sent token username year)) l = Some e"
    and r: "r = org_record (entry_owner e) l"
    by auto
  from first_accepted_login[OF e] have "lower l \<noteq> lower username"
    by (auto simp: accepted_login_def split: json.splits if_splits)
  then show ?thesis using r by simp
qed

theorem self_exclusion_witness:
  "fst (get_contributions_for_year example_platform [] ''t'' GITHUB_USERNAME 2020) = Inr [acme_fetched]
   \<and> acme_fetched \<in> set [acme_fetched]
   \<and> (\<exists>l. py_getitem acme_fetched ''login'' = Inr (JStr l) \<and> lower l \<noteq> lower GITHUB_USERNAME)"
proof -
  have m: "acme_fetched \<in> set [acme_fetched]" by simp
  from self_exclusion[OF example_fetch m] example_fetch m show ?thesis by blast
qed

text \<open>
  Claim C4. In the list that a fetch returns: an owner all of whose scanned entries,
  across the commits, the pull requests and the issues, are flagged private has no record;
  and an organization (an owner other than the subject user, whose own login the fetcher
  drops) with a scanned entry that is not private and has valid owner fields has a record.
\<close>

theorem public_visibility_filter:
  assumes "fst (get_contributions_for_year post sent token username year) = Inr res"
  shows "(list_all (\<lambda>e. owned_by l e \<longrightarrow> entry_private e) (scanned_entries (post sent token username year))
          \<longrightarrow> (\<forall>r \<in> set res. py_getitem r ''login'' \<noteq> Inr (JStr l)))
       \<and> (lower l \<noteq> lower username
          \<and> list_ex (\<lambda>e. owned_by l e \<and> valid_owner_fields e \<and> \<not> entry_private e) (scanned_entries (post sent token username year))
          \<longrightarrow> (\<exists>r \<in> set res. py_getitem r ''login'' = Inr (JStr l)))"
proof (intro conjI impI ballI)
  let ?es = "scanned_entries (post sent token username year)"
  fix r
  assume priv: "list_all (\<lambda>e. owned_by l e \<longrightarrow> entry_private e) ?es"
    and r: "r \<in> set res"
  show "py_getitem r ''login'' \<noteq> Inr (JStr l)"
  proof
    assume l: "py_getitem r ''login'' = Inr (JStr l)"
    from fetch_result(2)[OF assms, of r] r obtain k e where
      e: "first_accepted username ?es k = Some e" "r = org_record (entry_owner e) k"
      and p: "has_public_entry username ?es k"
      by auto
    from e(2) l have "k = l" by simp
    with p obtain e' where e': "e' \<in> set ?es" "accepted_login username e' = Some l" "\<not> entry_private e'"
      by (auto simp: has_public_entry_def list_ex_iff)
    from e'(2) have "owned_by l e'" by (simp add: accepted_login_iff)
    with priv e'(1,3) show False by (auto simp: list_all_iff)
  qed
next
  let ?es = "scanned_entries (post sent token username year)"
  assume a: "lower l \<noteq> lower username
    \<and> list_ex (\<lambda>e. owned_by l e \<and> valid_owner_fields e \<and> \<not> entry_private e) ?es"
  then obtain e' where e': "e' \<in> set ?es" "accepted_login username e' = Some l" "\<not> entry_private e'"
    by (auto simp: list_ex_iff accepted_login_iff)
  then have p: "has_public_entry username ?es l"
    by (auto simp: has_public_entry_def list_ex_iff)
  from e'(1,2) obtain e where e: "first_accepted username ?es l = Some e"
    unfolding first_accepted_def by (cases "find (\<lambda>e. accepted_login username e = Some l) ?es")
      (auto simp: find_None_iff)
  have "org_record (entry_owner e) l \<in> set res"
    using fetch_result(2)[OF assms, of "org_record (entry_owner e) l"] e p by blast
  then show "\<exists>r \<in> set res. py_getitem r ''login'' = Inr (JStr l)"
    by (intro bexI[of _ "org_record (entry_owner e) l"]) simp_all
qed

theorem public_visibility_filter_witness:
  "fst (get_contributions_for_year example_platform [] ''t'' GITHUB_USERNAME 2020) = Inr [acme_fetched]
   \<and> list_all (\<lambda>e. owned_by ''hidden'' e \<longrightarrow> entry_private e) (scanned_entries (example_platform [] ''t'' GITHUB_USERNAME 2020))
   \<and> lower ''acme'' \<noteq> lower GITHUB_USERNAME
   \<and> list_ex (\<lambda>e. owned_by ''acme'' e \<and> valid_owner_fields e \<and> \<not> entry_private e) (scanned_entries (example_platform [] ''t'' GITHUB_USERNAME 2020))
   \<and> py_getitem acme_fetched ''login'' \<noteq> Inr (JStr ''hidden'')
   \<and> (\<exists>r \<in> set [acme_fetched]. py_getitem r ''login'' = Inr (JStr ''acme''))"
proof -
  have h: "list_all (\<lambda>e. owned_by ''hidden'' e \<longrightarrow> entry_private e) (scanned_entries (example_platform [] ''t'' GITHUB_USERNAME 2020))"
    unfolding example_scanned by code_simp
  have n: "lower ''acme'' \<noteq> lower GITHUB_USERNAME" by code_simp
  have p: "list_ex (\<lambda>e. owned_by ''acme'' e \<and> valid_owner_fields e \<and> \<not> entry_private e) (scanned_entries (example_platform [] ''t'' GITHUB_USERNAME 2020))"
    unfolding example_scanned by code_simp
  from public_visibility_filter[OF example_fetch, of "''hidden''"] h
  have 1: "py_getitem acme_fetched ''login'' \<noteq> Inr (JStr ''hidden'')" by simp
  from public_visibility_filter[OF example_fetch, of "''acme''"] n p
  have 2: "\<exists>r \<in> set [acme_fetched]. py_getitem r ''login'' = Inr (JStr ''acme'')" by blast
  from example_fetch h n p 1 2 show ?thesis by blast
qed

text \<open>
  Claim C9, as amended. In the list that a fetch returns, no login occurs twice; every
  record is the record built from the first entry with that owner that has valid owner
  fields (an avatar URL that is not empty), the categories being scanned in the order
  commits, pull requests, issues, and this entry fixes its name, avatar URL and URL; and
  an organization has a record exactly when some entry with that owner and valid owner
  fields, in any category and at any place, is not private.
\<close>

theorem first_valid_entry_metadata:
  assumes "fst (get_contributions_for_year post sent token username year) = Inr res"
  shows "distinct (map (\<lambda>r. py_getitem r ''login'') res)
       \<and> (\<forall>r \<in> set res. \<exists>l e.
             py_getitem r ''login'' = Inr (JStr l)
             \<and> find (\<lambda>e. owned_by l e \<and> valid_owner_fields e) (scanned_entries (post sent token username year)) = Some e
             \<and> r = org_record (entry_owner e) l)
       \<and> (\<forall>l. lower l \<noteq> lower username \<longrightarrow>
              ((\<exists>r \<in> set res. py_getitem r ''login'' = Inr (JStr l))
               \<longleftrightarrow> list_ex (\<lambda>e. owned_by l e \<and> valid_owner_fields e \<and> \<not> entry_private e) (scanned_entries (post sent token username year))))"
proof (intro conjI ballI allI impI)
  let ?es = "scanned_entries (post sent token username year)"
  show "distinct (map (\<lambda>r. py_getitem r ''login'') res)"
    by (rule fetch_result(1)[OF assms])
  show "\<exists>l e. py_getitem r ''login'' = Inr (JStr l)
             \<and> find (\<lambda>e. owned_by l e \<and> valid_owner_fields e) ?es = Some e
             \<and> r = org_record (entry_owner e) l" if "r \<in> set res" for r
  proof -
    from fetch_result(2)[OF assms, of r] that obtain l e where
      e: "first_accepted username ?es l = Some e" and r: "r = org_record (entry_owner e) l"
      by auto
    from first_accepted_login[OF e] have "lower l \<noteq> lower username"
      by (simp add: accepted_login_iff)
    then have "find (\<lambda>e. owned_by l e \<and> valid_owner_fields e) ?es = Some e"
      using e by (simp add: first_accepted_def accepted_login_iff)
    then show ?thesis using r by auto
  qed
  show "(\<exists>r \<in> set res. py_getitem r ''login'' = Inr (JStr l))
        \<longleftrightarrow> list_ex (\<lambda>e. owned_by l e \<and> valid_owner_fields e \<and> \<not> entry_private e) ?es"
    if nl: "lower l \<noteq> lower username" for l
  proof -
    have hp: "has_public_entry username ?es l
        \<longleftrightarrow> list_ex (\<lambda>e. owned_by l e \<and> valid_owner_fields e \<and> \<not> entry_private e) ?es"
      using nl by (simp add: has_public_entry_def accepted_login_iff)
    show ?thesis unfolding hp[symmetric]
    proof
      assume "\<exists>r \<in> set res. py_getitem r ''login'' = Inr (JStr l)"
      then obtain r where r: "r \<in> set res" "py_getitem r ''login'' = Inr (JStr l)" by blast
      from fetch_result(2)[OF assms, of r] r(1) obtain k e where
        "r = org_record (entry_owner e) k" "has_public_entry username ?es k" by auto
      with r(2) show "has_public_entry username ?es l" by simp
    next
      assume p: "has_public_entry username ?es l"
      then obtain e' where "e' \<in> set ?es" "accepted_login username e' = Some l"
        by (auto simp: has_public_entry_def list_ex_iff)
      then obtain e where e: "first_accepted username ?es l = Some e"
        unfolding first_accepted_def by (cases "find (\<lambda>e. accepted_login username e = Some l) ?es")
          (auto simp: find_None_iff)
      have "org_record (entry_owner e) l \<in> set res"
        using fetch_result(2)[OF assms, of "org_record (entry_owner e) l"] e p by blast
      then show "\<exists>r \<in> set res. py_getitem r ''login'' = Inr (JStr l)"
        by (intro bexI[of _ "org_record (entry_owner e) l"]) simp_all
    qed
  qed
qed

text \<open>
  Claim C9 as stated takes the metadata from the first entry with that owner and gathers
  the public flag over all its entries. The guard of line 137 skips an entry whose avatar
  URL is empty before anything is recorded: here the first entry of \<^verbatim>\<open>beta\<close> is named
  \<^verbatim>\<open>First\<close> and the record is named \<^verbatim>\<open>Second\<close> after the next one, and \<^verbatim>\<open>acme\<close> has a public
  entry and no record.
\<close>

theorem skipped_avatar_counterexample:
  "scanned_entries (Response 200 (Some avatar_response))
     = [entry_without_avatar ''acme'' (JStr ''Acme'') False,
        entry ''acme'' (JStr ''Acme'') True,
        entry_without_avatar ''beta'' (JStr ''First'') False,
        entry ''beta'' (JStr ''Second'') False]
   \<and> owned_by ''acme'' (entry_without_avatar ''acme'' (JStr ''Acme'') False)
   \<and> \<not> entry_private (entry_without_avatar ''acme'' (JStr ''Acme'') False)
   \<and> owned_by ''beta'' (entry_without_avatar ''beta'' (JStr ''First'') False)
   \<and> field (entry_owner (entry_without_avatar ''beta'' (JStr ''First'') False)) ''name'' = JStr ''First''
   \<and> fst (get_contributions_for_year
            (\<lambda>sent token username year. Response 200 (Some avatar_response))
            [] ''t'' GITHUB_USERNAME 2020) = Inr [beta_fetched]
   \<and> py_getitem beta_fetched ''name'' = Inr (JStr ''Second'')"
  by code_simp

theorem first_valid_entry_metadata_witness:
  "fst (get_contributions_for_year example_platform [] ''t'' GITHUB_USERNAME 2020) = Inr [acme_fetched]
   \<and> distinct (map (\<lambda>r. py_getitem r ''login'') [acme_fetched])
   \<and> (\<exists>l e.
         py_getitem acme_fetched ''login'' = Inr (JStr l)
         \<and> find (\<lambda>e. owned_by l e \<and> valid_owner_fields e) (scanned_entries (example_platform [] ''t'' GITHUB_USERNAME 2020)) = Some e
         \<and> acme_fetched = org_record (entry_owner e) l)
   \<and> lower ''acme'' \<noteq> lower GITHUB_USERNAME
   \<and> (\<exists>r \<in> set [acme_fetched]. py_getitem r ''login'' = Inr (JStr ''acme''))
   \<and> list_ex (\<lambda>e. owned_by ''acme'' e \<and> valid_owner_fields e \<and> \<not> entry_private e) (scanned_entries (example_platform [] ''t'' GITHUB_USERNAME 2020))"
proof -
  note t = first_valid_entry_metadata[OF example_fetch]
  from t have 1: "distinct (map (\<lambda>r. py_getitem r ''login'') [acme_fetched])" by blast
  from t have "\<forall>r \<in> set [acme_fetched]. \<exists>l e.
         py_getitem r ''login'' = Inr (JStr l)
         \<and> find (\<lambda>e. owned_by l e \<and> valid_owner_fields e) (scanned_entries (example_platform [] ''t'' GITHUB_USERNAME 2020)) = Some e
         \<and> r = org_record (entry_owner e) l" by blast
  then have 2: "\<exists>l e.
         py_getitem acme_fetched ''login'' = Inr (JStr l)
         \<and> find (\<lambda>e. owned_by l e \<and> valid_owner_fields e) (scanned_entries (example_platform [] ''t'' GITHUB_USERNAME 2020)) = Some e
         \<and> acme_fetched = org_record (entry_owner e) l" by simp
  have n: "lower ''acme'' \<noteq> lower GITHUB_USERNAME" by code_simp
  have 3: "\<exists>r \<in> set [acme_fetched]. py_getitem r ''login'' = Inr (JStr ''acme'')"
    by (simp add: acme_fetched_def)
  from t n 3 have 4: "list_ex (\<lambda>e. owned_by ''acme'' e \<and> valid_owner_fields e \<and> \<not> entry_private e) (scanned_entries (example_platform [] ''t'' GITHUB_USERNAME 2020))"
    by blast
  from example_fetch 1 2 n 3 4 show ?thesis by blast
qed

text \<open>
  Claim C10. When the entry from which the record of a login is built (the first accepted
  entry of the login) has no display name (the field is absent, null or empty), the
  record of that login in the returned list has the login as its name; and the record is
  not dropped for the missing name: it is returned as soon as the login has a public
  entry.
\<close>

theorem display_name_fallback:
  assumes "fst (get_contributions_for_year post sent token username year) = Inr res"
    and "first_accepted username (scanned_entries (post sent token username year)) l = Some e"
    and "\<not> truthy (field (entry_owner e) ''name'')"
  shows "(\<forall>r \<in> set res. py_getitem r ''login'' = Inr (JStr l) \<longrightarrow> py_getitem r ''name'' = Inr (JStr l))
       \<and> (has_public_entry username (scanned_entries (post sent token username year)) l
          \<longrightarrow> (\<exists>r \<in> set res. py_getitem r ''login'' = Inr (JStr l)))"
proof (intro conjI ballI impI)
  let ?es = "scanned_entries (post sent token username year)"
  fix r assume r: "r \<in> set res" "py_getitem r ''login'' = Inr (JStr l)"
  from fetch_result(2)[OF assms(1), of r] r(1) obtain k e' where
    e': "first_accepted username ?es k = Some e'" "r = org_record (entry_owner e') k" by auto
  from e'(2) r(2) have "k = l" by simp
  with e' assms(2) have "r = org_record (entry_owner e) l" by simp
  then show "py_getitem r ''name'' = Inr (JStr l)" using assms(3) by (simp add: org_record_def)
next
  let ?es = "scanned_entries (post sent token username year)"
  assume "has_public_entry username ?es l"
  then have "org_record (entry_owner e) l \<in> set res"
    using fetch_result(2)[OF assms(1), of "org_record (entry_owner e) l"] assms(2) by blast
  then show "\<exists>r \<in> set res. py_getitem r ''login'' = Inr (JStr l)"
    by (intro bexI[of _ "org_record (entry_owner e) l"]) simp_all
qed

theorem display_name_fallback_witness:
  "fst (get_contributions_for_year example_platform [] ''t'' GITHUB_USERNAME 2020) = Inr [acme_fetched]
   \<and> first_accepted GITHUB_USERNAME (scanned_entries (example_platform [] ''t'' GITHUB_USERNAME 2020)) ''acme''
       = Some (entry ''acme'' JNull True)
   \<and> \<not> truthy (field (entry_owner (entry ''acme'' JNull True)) ''name'')
   \<and> has_public_entry GITHUB_USERNAME (scanned_entries (example_platform [] ''t'' GITHUB_USERNAME 2020)) ''acme''
   \<and> py_getitem acme_fetched ''login'' = Inr (JStr ''acme'')
   \<and> py_getitem acme_fetched ''name'' = Inr (JStr ''acme'')
   \<and> (\<exists>r \<in> set [acme_fetched]. py_getitem r ''login'' = Inr (JStr ''acme''))"
proof -
  have f: "first_accepted GITHUB_USERNAME (scanned_entries (example_platform [] ''t'' GITHUB_USERNAME 2020)) ''acme''
       = Some (entry ''acme'' JNull True)"
    unfolding example_scanned by code_simp
  have n: "\<not> truthy (field (entry_owner (entry ''acme'' JNull True)) ''name'')"
    by code_simp
  have p: "has_public_entry GITHUB_USERNAME (scanned_entries (example_platform [] ''t'' GITHUB_USERNAME 2020)) ''acme''"
    unfolding example_scanned by code_simp
  have l: "py_getitem acme_fetched ''login'' = Inr (JStr ''acme'')"
    by (simp add: acme_fetched_def)
  note t = display_name_fallback[OF example_fetch f n]
  from t l have 1: "py_getitem acme_fetched ''name'' = Inr (JStr ''acme'')" by simp
  from t p have 2: "\<exists>r \<in> set [acme_fetched]. py_getitem r ''login'' = Inr (JStr ''acme'')" by blast
  from example_fetch f n p l 1 2 show ?thesis by blast
qed

section \<open>Properties of the orchestrator\<close>

lemma org_record_is_org [simp]: "is_org (org_record owner l)"
  by (simp add: org_record_def)

lemma fetch_is_org:
  assumes "fst (get_contributions_for_year post sent token username year) = Inr res"
  shows "list_all is_org res"
  unfolding list_all_iff using fetch_result(2)[OF assms] by auto

lemma fetch_sent:
  "snd (get_contributions_for_year post sent token username year) = sent @ [(token, username, year)]"
  by (simp add: get_contributions_for_year_def requests_post_def)

lemma add_orgs_returns:
  "list_all is_org res \<Longrightarrow> list_all is_org (map snd d) \<Longrightarrow>
   \<exists>d'. add_orgs d res = Inr d' \<and> list_all is_org (map snd d')"
proof (induction res arbitrary: d)
  case Nil then show ?case by simp
next
  case (Cons org rest)
  from Cons.prems(1) obtain k where "login_key org = Inr k"
    using is_org_login_key[of org] by (auto simp: returns_iff)
  then obtain j where j: "py_getitem org ''login'' = Inr j" "hash_key j = Inr k"
    by (auto simp: login_key_def bindE_eq_Inr)
  have "list_all is_org (map snd (AList.update k org d))"
    using Cons.prems by (auto simp: list_all_iff dest!: set_update_cases)
  then have "list_all is_org (map snd (if k \<in> set (map fst d) then d else AList.update k org d))"
    using Cons.prems(2) by simp
  from Cons.IH[OF _ this] Cons.prems(1) show ?case by (simp add: j)
qed

lemma fetches_return_append:
  "fetches_return post sent (xs @ ys)
     = (fetches_return post sent xs \<and> fetches_return post (sent @ xs) ys)"
  by (induction xs arbitrary: sent) auto

lemma fetch_tokens_returns:
  "fetches_return post sent (map (\<lambda>token. (token, GITHUB_USERNAME, year)) ts) \<Longrightarrow>
   list_all is_org (map snd d) \<Longrightarrow>
   \<exists>d'. fetch_tokens post year ts d sent
           = Inr (d', sent @ map (\<lambda>token. (token, GITHUB_USERNAME, year)) ts)
         \<and> list_all is_org (map snd d')"
proof (induction ts arbitrary: d sent)
  case Nil then show ?case by simp
next
  case (Cons t ts)
  from Cons.prems(1) obtain res where
    res: "fst (get_contributions_for_year post sent t GITHUB_USERNAME year) = Inr res"
    and rest: "fetches_return post (sent @ [(t, GITHUB_USERNAME, year)])
                 (map (\<lambda>token. (token, GITHUB_USERNAME, year)) ts)"
    by (auto simp: returns_iff)
  from add_orgs_returns[OF fetch_is_org[OF res] Cons.prems(2)] obtain d1 where
    d1: "add_orgs d res = Inr d1" "list_all is_org (map snd d1)" by blast
  from Cons.IH[OF rest d1(2)] show ?case by (simp add: res d1(1) fetch_sent)
qed

lemma is_dataset_update:
  "is_dataset (JObj acc) \<Longrightarrow> list_all is_org rs \<Longrightarrow> is_dataset (JObj (AList.update k (JArr rs) acc))"
  by (auto simp: list_all_iff dest!: set_update_cases)

lemma py_print_ok: "\<forall>n. out n \<Longrightarrow> py_print out n = Inr (Suc n)"
  by (simp add: py_print_def)

lemma fetch_years_returns:
  "fetches_return post sent
     (concat (map (\<lambda>year. map (\<lambda>token. (token, GITHUB_USERNAME, year)) ts) ys)) \<Longrightarrow>
   \<forall>n. out n \<Longrightarrow> is_dataset (JObj acc) \<Longrightarrow>
   \<exists>r. fetch_years out post ts ys acc sent n = Inr r \<and> is_dataset (JObj (fst r))"
proof (induction ys arbitrary: acc sent n)
  case Nil then show ?case by simp
next
  case (Cons y ys)
  from Cons.prems(1) have
    now: "fetches_return post sent (map (\<lambda>token. (token, GITHUB_USERNAME, y)) ts)"
    and later: "fetches_return post (sent @ map (\<lambda>token. (token, GITHUB_USERNAME, y)) ts)
       (concat (map (\<lambda>year. map (\<lambda>token. (token, GITHUB_USERNAME, year)) ts) ys))"
    by (simp_all add: fetches_return_append)
  from fetch_tokens_returns[OF now, of "[]"] obtain d where
    d: "fetch_tokens post y ts [] sent = Inr (d, sent @ map (\<lambda>token. (token, GITHUB_USERNAME, y)) ts)"
      "list_all is_org (map snd d)" by auto
  have "is_dataset (JObj (AList.update (str_int y) (if d \<noteq> [] then JArr (map snd d) else JArr []) acc))"
    using is_dataset_update[OF Cons.prems(3) d(2)] is_dataset_update[OF Cons.prems(3), of "[]"]
    by (cases d) simp_all
  from Cons.IH[OF later Cons.prems(2) this, of "Suc (Suc n)"] obtain r where
    "fetch_years out post ts ys
       (AList.update (str_int y) (if d \<noteq> [] then JArr (map snd d) else JArr []) acc)
       (sent @ map (\<lambda>token. (token, GITHUB_USERNAME, y)) ts) (Suc (Suc n)) = Inr r"
    "is_dataset (JObj (fst r))" by blast
  then show ?case by (cases "d = []") (auto simp: d(1) py_print_ok[OF Cons.prems(2)])
qed

lemma collect_returns:
  assumes "all_fetches_return e" "manual_usable (manual e)" "\<forall>n. print_ok e n"
  shows "\<exists>c. collect e = Inr c"
proof -
  note p = py_print_ok[OF assms(3)]
  have f: "fetches_return (platform e) []
     (concat (map (\<lambda>year. map (\<lambda>token. (token, GITHUB_USERNAME, year)) (configured_tokens e))
                (years_to_fetch (current_year e))))"
    using assms(1) by (simp add: all_fetches_return_def planned_requests_def)
  have d0: "is_dataset (JObj [])" by simp
  define n2 where "n2 = (if configured_tokens e = [] then Suc (Suc 0) else Suc 0)"
  from fetch_years_returns[OF f assms(3) d0, of n2] obtain r where
    r: "fetch_years (print_ok e) (platform e) (configured_tokens e) (years_to_fetch (current_year e)) [] [] n2
          = Inr r" "is_dataset (JObj (fst r))"
    by blast
  have start: "bindE (if configured_tokens e = [] then py_print (print_ok e) 0 else Inr 0)
                 (\<lambda>n1. bindE (py_print (print_ok e) n1) k) = k n2" for k :: "nat \<Rightarrow> py_error + 'x"
    by (simp add: p n2_def)
  from assms(2) obtain v where v: "load_manual_contributions (manual e) = Inr v"
    "\<not> truthy v \<or> is_dataset v"
    by (cases "manual e") (auto simp: manual_usable_def)
  show ?thesis
  proof (cases "truthy v")
    case False
    then show ?thesis unfolding collect_def Let_def start by (simp add: r(1) v(1))
  next
    case True
    with v(2) have "is_dataset v" by simp
    from is_dataset_merge[OF r(2) this] obtain m where
      "merge_contributions (JObj (fst r)) v = Inr (JObj m)" by blast
    then show ?thesis unfolding collect_def Let_def start by (simp add: r(1) v(1) True p)
  qed
qed

lemma run_returns:
  assumes "all_fetches_return e" "manual_usable (manual e)" "\<forall>n. print_ok e n" "output_writable e"
  shows "\<exists>d. run e = (Some d, Inr ())"
proof -
  from collect_returns[OF assms(1-3)] obtain c where "collect e = Inr c" by blast
  then show ?thesis using assms(4) by (simp add: run_def py_print_ok[OF assms(3)])
qed

text \<open>
  Claim C5, as amended. When the HTTP client cannot be imported the process writes
  nothing and exits with status 1, or 120 when the standard streams cannot be flushed. When
  an exception escapes \<^verbatim>\<open>main\<close> the status is 1, or 120 likewise; and whenever the
  standard streams cannot be flushed at the end the status is 120. When the client can be
  imported, standard output takes every line and is flushed, every request of the run is
  answered so that the fetcher returns (a failed fetch returns the empty list, and any
  number of them may fail), there is no manual file or \<^verbatim>\<open>json.load\<close> returns an empty
  value or a dataset for it, and the output file can be written, then the run is
  completed, the mapping is written and the status is 0.
\<close>

theorem exit_status_of_run:
  "(\<not> requests_installed e \<longrightarrow>
      exit_status (main e) = (if flush_ok e then 1 else 120) \<and> written (main e) = None)
   \<and> (requests_installed e \<and> \<not> returns (snd (run e)) \<longrightarrow>
      exit_status (main e) = (if flush_ok e then 1 else 120))
   \<and> (\<not> flush_ok e \<longrightarrow> exit_status (main e) = 120)
   \<and> (requests_installed e \<and> stdout_works e \<and> all_fetches_return e
        \<and> manual_usable (manual e) \<and> output_writable e
        \<longrightarrow> exit_status (main e) = 0 \<and> written (main e) \<noteq> None)"
proof (intro conjI impI)
  assume "\<not> requests_installed e"
  then show "exit_status (main e) = (if flush_ok e then 1 else 120)" "written (main e) = None"
    by (simp_all add: main_def)
next
  assume "requests_installed e \<and> \<not> returns (snd (run e))"
  then show "exit_status (main e) = (if flush_ok e then 1 else 120)"
    by (cases "run e") (auto simp: main_def returns_def split: sum.splits)
next
  assume "\<not> flush_ok e"
  then show "exit_status (main e) = 120" by (simp add: main_def Let_def)
next
  assume a: "requests_installed e \<and> stdout_works e \<and> all_fetches_return e
        \<and> manual_usable (manual e) \<and> output_writable e"
  then have "\<forall>n. print_ok e n" and fl: "flush_ok e" by (simp_all add: stdout_works_def)
  with a obtain d where "run e = (Some d, Inr ())" using run_returns by blast
  with a fl show "exit_status (main e) = 0" "written (main e) \<noteq> None" by (simp_all add: main_def)
qed

text \<open>
  Claim C5 as stated lets no manual file content change the exit status. Nothing in the
  script catches an exception: with the client installed, standard output in order and no
  token, a manual file whose record lacks \<^verbatim>\<open>login\<close> raises a KeyError in the merger, and the
  process ends with status 1 without writing.
\<close>

theorem malformed_manual_file_counterexample:
  "requests_installed broken_manual_env
   \<and> stdout_works broken_manual_env
   \<and> output_writable broken_manual_env
   \<and> configured_tokens broken_manual_env = []
   \<and> exit_status (main broken_manual_env) = 1
   \<and> written (main broken_manual_env) = None"
proof -
  have 1: "stdout_works broken_manual_env" by (simp add: stdout_works_def broken_manual_env_def)
  have 2: "requests_installed broken_manual_env \<and> output_writable broken_manual_env"
    by (simp add: broken_manual_env_def)
  have 3: "configured_tokens broken_manual_env = []" by code_simp
  have 4: "exit_status (main broken_manual_env) = 1" by code_simp
  have 5: "written (main broken_manual_env) = None" by code_simp
  from 1 2 3 4 5 show ?thesis by simp
qed

theorem exit_status_of_run_witness:
  "requests_installed example_env \<and> stdout_works example_env \<and> all_fetches_return example_env
   \<and> manual_usable (manual example_env) \<and> output_writable example_env
   \<and> exit_status (main example_env) = 0 \<and> written (main example_env) \<noteq> None
   \<and> \<not> requests_installed (example_env\<lparr>requests_installed := False\<rparr>)
   \<and> exit_status (main (example_env\<lparr>requests_installed := False\<rparr>)) = 1
   \<and> requests_installed (example_env\<lparr>manual := NotJson\<rparr>)
   \<and> \<not> returns (snd (run (example_env\<lparr>manual := NotJson\<rparr>)))
   \<and> exit_status (main (example_env\<lparr>manual := NotJson\<rparr>)) = 1
   \<and> \<not> flush_ok (example_env\<lparr>flush_ok := False\<rparr>)
   \<and> exit_status (main (example_env\<lparr>flush_ok := False\<rparr>)) = 120"
proof -
  have 1: "requests_installed example_env" by (simp add: example_env_def)
  have 2: "all_fetches_return example_env" by code_simp
  have 3: "manual_usable (manual example_env)" by code_simp
  have 4: "output_writable example_env" by (simp add: example_env_def)
  have 5: "stdout_works example_env" by (simp add: stdout_works_def example_env_def)
  have 6: "\<not> requests_installed (example_env\<lparr>requests_installed := False\<rparr>)" by simp
  have 7: "requests_installed (example_env\<lparr>manual := NotJson\<rparr>)" by (simp add: example_env_def)
  have 8: "\<not> returns (snd (run (example_env\<lparr>manual := NotJson\<rparr>)))" by code_simp
  have 9: "\<not> flush_ok (example_env\<lparr>flush_ok := False\<rparr>)" by simp
  have f: "flush_ok example_env" by (simp add: example_env_def)
  from exit_status_of_run[of example_env] 1 2 3 4 5
  have a: "exit_status (main example_env) = 0 \<and> written (main example_env) \<noteq> None" by blast
  from exit_status_of_run[of "example_env\<lparr>requests_installed := False\<rparr>"] 6 f
  have b: "exit_status (main (example_env\<lparr>requests_installed := False\<rparr>)) = 1" by simp
  from exit_status_of_run[of "example_env\<lparr>manual := NotJson\<rparr>"] 7 8 f
  have c: "exit_status (main (example_env\<lparr>manual := NotJson\<rparr>)) = 1" by simp
  from exit_status_of_run[of "example_env\<lparr>flush_ok := False\<rparr>"] 9
  have d: "exit_status (main (example_env\<lparr>flush_ok := False\<rparr>)) = 120" by blast
  from 1 2 3 4 5 6 7 8 9 a b c d show ?thesis by blast
qed

lemma fetch_tokens_none [simp]: "fetch_tokens post year [] d sent = Inr (d, sent)"
  by simp

lemma fetch_years_keys:
  "fetch_years out post ts ys acc sent n = Inr r \<Longrightarrow>
   fst ` set (fst r) = fst ` set acc \<union> str_int ` set ys
   \<and> (distinct (map fst acc) \<longrightarrow> distinct (map fst (fst r)))"
proof (induction ys arbitrary: acc sent n)
  case Nil then show ?case by auto
next
  case (Cons y ys)
  from Cons.prems obtain v sent1 n2 where
    r: "fetch_years out post ts ys (AList.update (str_int y) v acc) sent1 n2 = Inr r"
    by (auto simp: bindE_eq_Inr)
  show ?case using Cons.IH[OF r] by (auto simp: dom_update distinct_update)
qed

lemma fetch_years_no_tokens:
  "fetch_years out post [] ys acc sent n = Inr r \<Longrightarrow>
   map_of (fst r) k = (if k \<in> str_int ` set ys then Some (JArr []) else map_of acc k)"
proof (induction ys arbitrary: acc sent n)
  case Nil then show ?case by auto
next
  case (Cons y ys)
  from Cons.prems obtain n2 where
    r: "fetch_years out post [] ys (AList.update (str_int y) (JArr []) acc) sent n2 = Inr r"
    by (auto simp: bindE_eq_Inr)
  show ?case using Cons.IH[OF r] by (auto simp: update_conv')
qed

lemma sort_years_set [simp]: "set (sort_years kvs) = set kvs"
  by (simp add: sort_years_def)

lemma distinct_map_sort_key: "distinct (map f (sort_key f xs)) = distinct (map f xs)"
  by (induction xs) (auto simp: sort_key_simps distinct_insort_key)

lemma sort_years_distinct [simp]: "distinct (map fst (sort_years kvs)) = distinct (map fst kvs)"
  by (simp add: sort_years_def rev_map[symmetric] distinct_map_sort_key)

lemma sort_years_lookup:
  assumes "distinct (map fst kvs)"
  shows "map_of (sort_years kvs) = map_of kvs"
proof -
  have "distinct (map fst (sort_years kvs))" using assms by simp
  from map_of_inject_set[OF this assms] show ?thesis by simp
qed

lemma main_written: "written (main e) = Some d \<Longrightarrow> \<exists>n. collect e = Inr (d, n)"
  by (auto simp: main_def run_def Let_def split: if_splits sum.splits prod.splits)

lemma collect_shape:
  assumes "collect e = Inr (d, n)"
  obtains al v items n0 r where
    "fetch_years (print_ok e) (platform e) (configured_tokens e) (years_to_fetch (current_year e)) [] [] n0
       = Inr r" "al = fst r"
    "load_manual_contributions (manual e) = Inr v"
    "if truthy v then merge_contributions (JObj al) v = Inr (JObj items) else items = al"
    "d = sort_years items"
proof -
  from assms obtain n0 r v merged items where
    1: "fetch_years (print_ok e) (platform e) (configured_tokens e) (years_to_fetch (current_year e)) [] [] n0
          = Inr r"
    and 2: "load_manual_contributions (manual e) = Inr v"
    and 3: "(if truthy v
             then bindE (py_print (print_ok e) (snd (snd r))) (\<lambda>n4.
                  bindE (merge_contributions (JObj (fst r)) v) (\<lambda>merged. Inr (merged, n4)))
             else Inr (JObj (fst r), snd (snd r))) = Inr merged"
    and 4: "py_items (fst merged) = Inr items"
    and 5: "d = sort_years items"
    unfolding collect_def Let_def bindE_eq_Inr by auto
  from 4 have m: "fst merged = JObj items" by (cases "fst merged") auto
  have "if truthy v then merge_contributions (JObj (fst r)) v = Inr (JObj items) else items = fst r"
  proof (cases "truthy v")
    case True
    with 3 obtain mg n4 where "merge_contributions (JObj (fst r)) v = Inr mg" "merged = (mg, n4)"
      by (auto simp: bindE_eq_Inr)
    with m True show ?thesis by simp
  next
    case False
    with 3 m show ?thesis by auto
  qed
  with 1 2 5 show ?thesis using that by blast
qed

lemma years_to_fetch_set [simp]: "set (years_to_fetch cy) = {2016..cy}"
  by (simp add: years_to_fetch_def)

text \<open>
  Claim C8. The mapping that a run writes has a key for every year from 2016 to the
  current year, whatever was found; and when no token is configured, every such year
  for which the manual file lists no record is mapped to the empty list.
\<close>

theorem output_year_range:
  assumes "written (main e) = Some d"
  shows "(\<forall>y \<in> {2016..current_year e}. str_int y \<in> fst ` set d)
       \<and> (configured_tokens e = [] \<longrightarrow>
            (\<forall>y \<in> {2016..current_year e}.
               manual_entries (manual e) (str_int y) = [] \<longrightarrow> map_of d (str_int y) = Some (JArr [])))"
proof -
  from main_written[OF assms] obtain n where "collect e = Inr (d, n)" by blast
  then obtain al v items n0 r where
    r: "fetch_years (print_ok e) (platform e) (configured_tokens e) (years_to_fetch (current_year e)) [] [] n0
          = Inr r" and al: "al = fst r"
    and v: "load_manual_contributions (manual e) = Inr v"
    and items: "if truthy v then merge_contributions (JObj al) v = Inr (JObj items) else items = al"
    and d: "d = sort_years items"
    by (rule collect_shape)
  have keys_al: "fst ` set al = str_int ` {2016..current_year e}" and dist_al: "distinct (map fst al)"
    using fetch_years_keys[OF r] by (simp_all add: al)
  have dist_items: "distinct (map fst items)"
    using items dist_al merge_contributions_distinct by (auto split: if_splits)
  have look: "map_of d = map_of items" unfolding d by (rule sort_years_lookup[OF dist_items])
  have keys_items: "fst ` set al \<subseteq> fst ` set items"
  proof (cases "truthy v")
    case False then show ?thesis using items by simp
  next
    case True
    with items have m: "merge_contributions (JObj al) v = Inr (JObj items)" by simp
    then obtain b where b: "v = JObj b" by (auto elim!: merge_contributions_shape)
    have "dom (map_of items) = fst ` set al \<union> fst ` set b"
      unfolding dom_def merge_contributions_lookup(1)[OF m[unfolded b]] by auto
    then show ?thesis by (auto simp: dom_map_of_conv_image_fst)
  qed
  have part1: "\<forall>y \<in> {2016..current_year e}. str_int y \<in> fst ` set d"
    using keys_items keys_al by (auto simp: d)
  have part2: "map_of d (str_int y) = Some (JArr [])"
    if nt: "configured_tokens e = []" and y: "y \<in> {2016..current_year e}"
      and me: "manual_entries (manual e) (str_int y) = []" for y
  proof -
    have ay: "map_of al (str_int y) = Some (JArr [])"
      using fetch_years_no_tokens[OF r[unfolded nt], of "str_int y"] y by (auto simp: al)
    show ?thesis
    proof (cases "truthy v")
      case False then show ?thesis using items ay look by simp
    next
      case True
      with items have m: "merge_contributions (JObj al) v = Inr (JObj items)" by simp
      then obtain b where b: "v = JObj b" by (auto elim!: merge_contributions_shape)
      have "str_int y \<in> fst ` set al" using keys_al y by auto
      then have yin: "str_int y \<in> fst ` set al \<union> fst ` set b" by simp
      from merge_contributions_lookup[OF m[unfolded b], of "str_int y"] yin
      obtain w where w: "merge_year (JObj al) (JObj b) (str_int y) = Inr w" "map_of items (str_int y) = Some w"
        by (auto simp: returns_iff)
      from w(1) obtain mv ml where mv: "py_get (JObj b) (str_int y) (JArr []) = Inr mv" "py_iter mv = Inr ml"
        unfolding merge_year_def by (auto simp: bindE_eq_Inr)
      have "ml = []" using me mv by (simp add: manual_entries_def v b)
      then have "w = JArr []" using w(1) mv ay by (simp add: merge_year_def)
      then show ?thesis using w(2) look by simp
    qed
  qed
  from part1 part2 show ?thesis by blast
qed

theorem output_year_range_witness:
  "written (main manual_only_env) =
     Some [(''2020'', JArr [acme_manual]), (''2017'', JArr []), (''2016'', JArr [])]
   \<and> configured_tokens manual_only_env = []
   \<and> manual_entries (manual manual_only_env) (str_int 2017) = []
   \<and> str_int 2017 \<in> fst ` set [(''2020'', JArr [acme_manual]), (''2017'', JArr []), (''2016'', JArr [])]
   \<and> map_of [(''2020'', JArr [acme_manual]), (''2017'', JArr []), (''2016'', JArr [])] (str_int 2017)
       = Some (JArr [])"
proof -
  have w: "written (main manual_only_env) =
     Some [(''2020'', JArr [acme_manual]), (''2017'', JArr []), (''2016'', JArr [])]"
    by code_simp
  have t: "configured_tokens manual_only_env = []" by code_simp
  have m: "manual_entries (manual manual_only_env) (str_int 2017) = []" by code_simp
  have y: "(2017::int) \<in> {2016..current_year manual_only_env}" by (simp add: manual_only_env_def)
  note r = output_year_range[OF w]
  from r y have 1: "str_int 2017 \<in> fst ` set [(''2020'', JArr [acme_manual]), (''2017'', JArr []), (''2016'', JArr [])]"
    by blast
  from r t y m have 2: "map_of [(''2020'', JArr [acme_manual]), (''2017'', JArr []), (''2016'', JArr [])] (str_int 2017)
       = Some (JArr [])" by blast
  from w t m 1 2 show ?thesis by blast
qed

end
